theory Spec2Isabelle
  imports Complex_Main
begin

section \<open>Python strings\<close>

text \<open>
  A Python \<open>str\<close> is a sequence of Unicode code points, and \<open>len\<close> counts code
  points. A character is modelled by its code point, a string by the list of them.
\<close>

type_synonym pychar = nat
type_synonym pystr = "pychar list"

text \<open>
  \<open>str.isspace\<close> for one character: the code points CPython lists as whitespace
  (tab, line feed, vertical tab, form feed, carriage return, the separators
  U+001C..U+001F, space, U+0085, U+00A0, U+1680, U+2000..U+200A, U+2028, U+2029,
  U+202F, U+205F, U+3000).
\<close>

definition isspace :: "pychar \<Rightarrow> bool" where
  "isspace c \<longleftrightarrow>
     (9 \<le> c \<and> c \<le> 13) \<or> (28 \<le> c \<and> c \<le> 32) \<or> c = 133 \<or> c = 160 \<or> c = 5760 \<or>
     (8192 \<le> c \<and> c \<le> 8202) \<or> c = 8232 \<or> c = 8233 \<or> c = 8239 \<or> c = 8287 \<or>
     c = 12288"

text \<open>\<open>text.strip()\<close>: leading and trailing whitespace removed.\<close>

definition strip :: "pystr \<Rightarrow> pystr" where
  "strip text = rev (dropWhile isspace (rev (dropWhile isspace text)))"

text \<open>
  \<open>text[start:end]\<close> for integer bounds: a negative bound counts from the end, and
  both bounds are clamped to the string.
\<close>

definition slice_bound :: "nat \<Rightarrow> int \<Rightarrow> nat" where
  "slice_bound n i = (if i < 0 then nat (max 0 (int n + i)) else min n (nat i))"

definition pyslice :: "'a list \<Rightarrow> int \<Rightarrow> int \<Rightarrow> 'a list" where
  "pyslice xs start end =
     (let lo = slice_bound (length xs) start; hi = slice_bound (length xs) end
      in take (hi - lo) (drop lo xs))"

text \<open>A string literal, as the list of its code points.\<close>

definition ustr :: "string \<Rightarrow> pystr" where
  "ustr s = map of_char s"

text \<open>\<open>a in b\<close> for two strings: \<open>a\<close> occurs in \<open>b\<close> as a contiguous substring.\<close>

fun contains :: "'a list \<Rightarrow> 'a list \<Rightarrow> bool" where
  "contains a [] = (a = [])"
| "contains a (c # cs) = (take (length a) (c # cs) = a \<or> contains a cs)"

text \<open>\<open>text.split()\<close>: the maximal runs of non-whitespace characters, in order.\<close>

function split_ws :: "pystr \<Rightarrow> pystr list" where
  "split_ws s =
     (let s' = dropWhile isspace s in
      if s' = [] then []
      else takeWhile (\<lambda>c. \<not> isspace c) s' # split_ws (dropWhile (\<lambda>c. \<not> isspace c) s'))"
  by pat_completeness auto
termination
proof (relation "measure length")
  fix s s' :: pystr
  assume s': "s' = dropWhile isspace s" "s' \<noteq> []"
  then have "\<not> isspace (hd s')" by (simp add: hd_dropWhile)
  then have "dropWhile (\<lambda>c. \<not> isspace c) s' = dropWhile (\<lambda>c. \<not> isspace c) (tl s')"
    using s'(2) by (cases s') auto
  then have "length (dropWhile (\<lambda>c. \<not> isspace c) s') \<le> length (tl s')"
    using length_dropWhile_le[of "\<lambda>c. \<not> isspace c" "tl s'"] by simp
  moreover have "length (tl s') < length s'" using s'(2) by (cases s') auto
  moreover have "length s' \<le> length s" using s'(1) by (simp add: length_dropWhile_le)
  ultimately show "(dropWhile (\<lambda>c. \<not> isspace c) s', s) \<in> measure length"
    by simp
qed simp

text \<open>\<open>text.split(c)\<close> for a one-character separator: the pieces between its occurrences.\<close>

fun split_on :: "pychar \<Rightarrow> pystr \<Rightarrow> pystr list" where
  "split_on c [] = [[]]"
| "split_on c (x # xs) =
     (let r = split_on c xs in if x = c then [] # r else (x # hd r) # tl r)"

text \<open>\<open>sep.join(words)\<close>.\<close>

fun join :: "pystr \<Rightarrow> pystr list \<Rightarrow> pystr" where
  "join sep [] = []"
| "join sep [w] = w"
| "join sep (w # ws) = w @ sep @ join sep ws"

section \<open>The normalizer\<close>

text \<open>\<open>text.replace("\r", "\n")\<close>: every carriage return (13) becomes a line feed (10).\<close>

definition replace_cr :: "pystr \<Rightarrow> pystr" where
  "replace_cr s = map (\<lambda>c. if c = 13 then 10 else c) s"

text \<open>
  \<open>re.sub(r"[ \t]+", " ", text)\<close>: scanning from the left, every maximal run of spaces
  (32) and tabs (9) is replaced by one space.
\<close>

definition hspace :: "pychar \<Rightarrow> bool" where
  "hspace c \<longleftrightarrow> c = 32 \<or> c = 9"

function sub_hspace :: "pystr \<Rightarrow> pystr" where
  "sub_hspace [] = []"
| "sub_hspace (c # cs) =
     (if hspace c then 32 # sub_hspace (dropWhile hspace cs) else c # sub_hspace cs)"
  by pat_completeness auto
termination
  by (relation "measure length") (auto simp: less_Suc_eq_le length_dropWhile_le)

text \<open>
  \<open>re.sub(r"\n{3,}", "\n\n", text)\<close>: scanning from the left, a maximal run of line
  feeds is replaced by two line feeds when it has three or more of them, and kept
  otherwise.
\<close>

function sub_newlines :: "pystr \<Rightarrow> pystr" where
  "sub_newlines [] = []"
| "sub_newlines (c # cs) =
     (if c = 10 then
        (let run = takeWhile (\<lambda>x. x = 10) cs; rest = dropWhile (\<lambda>x. x = 10) cs
         in (if 2 \<le> length run then [10, 10] else 10 # run) @ sub_newlines rest)
      else c # sub_newlines cs)"
  by pat_completeness auto
termination
  by (relation "measure length") (auto simp: less_Suc_eq_le length_dropWhile_le)

definition clean_text :: "pystr \<Rightarrow> pystr" where
  "clean_text s = strip (sub_newlines (sub_hspace (replace_cr s)))"

section \<open>The chunker\<close>

definition CHUNK_SIZE :: int where
  "CHUNK_SIZE = 3800"

definition CHUNK_OVERLAP :: int where
  "CHUNK_OVERLAP = 500"

text \<open>
  The \<open>while start < n\<close> loop of \<open>chunk_text\<close>, with the list of chunks built so far
  as an accumulator. The loop need not terminate, so the result is an option: \<open>None\<close>
  is the loop that never returns. The parameter \<open>size\<close> is written \<open>sz\<close>.
\<close>

partial_function (option) chunk_loop ::
  "pystr \<Rightarrow> int \<Rightarrow> int \<Rightarrow> int \<Rightarrow> pystr list \<Rightarrow> pystr list option" where
  "chunk_loop text sz overlap start chunks =
     (let n = int (length text) in
      if start < n then
        (let end = min n (start + sz);
             chunk = pyslice text start end;
             chunks' = chunks @ [chunk]
         in if end = n then Some chunks'
            else chunk_loop text sz overlap (max 0 (end - overlap)) chunks')
      else Some chunks)"

declare chunk_loop.simps [code]

definition chunk_text :: "pystr \<Rightarrow> int \<Rightarrow> int \<Rightarrow> pystr list option" where
  "chunk_text text0 sz overlap =
     (let text = strip text0; n = int (length text) in
      if n \<le> sz then Some [text]
      else chunk_loop text sz overlap 0 [])"

section \<open>The extractor\<close>

text \<open>
  A file of the raw directory, as the code observes it: the \<open>stem\<close> and \<open>suffix\<close> of
  its path, the path as a string, and what each reader returns for it. \<open>read_text\<close> is
  the decoded content (\<open>None\<close> when reading raises), \<open>pypdf_pages\<close> the text pypdf
  extracts from each page (\<open>None\<close> when the reader or a page raises), \<open>pdfminer_text\<close>
  the text pdfminer extracts from the whole document (\<open>None\<close> when it raises).
  The extractors return strings, which \<open>x or ""\<close> leaves unchanged.
\<close>

record raw_file =
  stem :: pystr
  suffix :: pystr
  path_str :: pystr
  read_text :: "pystr option"
  pypdf_pages :: "pystr list option"
  pdfminer_text :: "pystr option"

datatype error = FileNotFoundError | ValueError pystr | SystemExit nat | OSError

text \<open>What a call does: it returns, raises, or never returns.\<close>

datatype 'a outcome = Return 'a | Raise error | Diverge

definition extract_pdf_pypdf :: "raw_file \<Rightarrow> pystr list" where
  "extract_pdf_pypdf path = (case pypdf_pages path of None \<Rightarrow> [] | Some pages \<Rightarrow> pages)"

definition extract_pdf_pdfminer :: "raw_file \<Rightarrow> pystr list" where
  "extract_pdf_pdfminer path =
     (case pdfminer_text path of
        None \<Rightarrow> []
      | Some all_text \<Rightarrow> if 12 \<in> set all_text then split_on 12 all_text else [all_text])"

text \<open>
  \<open>int(0.3 * len(pages))\<close> in double precision. A non-negative double is an integer of
  at most 53 bits times a power of two; \<open>round_to_53\<close> rounds a natural number to the
  nearest such value, ties to the even one. The double \<open>0.3\<close> is
  \<open>5404319552844595 / 2^54\<close>; its product with \<open>float(n)\<close> is rounded, and \<open>int\<close>
  drops the fraction. The result of \<open>round_to_53\<close> is the rounded value itself; for the
  product it is counted in units of \<open>2^-54\<close>. (Doubles overflow above \<open>2^1023\<close>, far
  beyond the length of any list.)
\<close>

fun bit_length :: "nat \<Rightarrow> nat" where
  "bit_length n = (if n = 0 then 0 else Suc (bit_length (n div 2)))"

declare bit_length.simps [simp del]

definition round_to_53 :: "nat \<Rightarrow> nat" where
  "round_to_53 m =
     (let s = bit_length m - 53; q = m div 2 ^ s; r = m mod 2 ^ s
      in (if 2 ^ s < 2 * r \<or> (2 * r = 2 ^ s \<and> odd q) then q + 1 else q) * 2 ^ s)"

definition int_three_tenths :: "nat \<Rightarrow> nat" where
  "int_three_tenths n = round_to_53 (5404319552844595 * round_to_53 n) div 2 ^ 54"

text \<open>The pages with ``enough'' text: \<open>sum(1 for t in pages if t and len(t.strip()) > 30)\<close>.\<close>

definition count_non_empty :: "pystr list \<Rightarrow> nat" where
  "count_non_empty pages = length (filter (\<lambda>t. t \<noteq> [] \<and> 30 < length (strip t)) pages)"

definition extract_pdf_text :: "raw_file \<Rightarrow> pystr list \<times> bool" where
  "extract_pdf_text path =
     (let pages = extract_pdf_pypdf path;
          non_empty = count_non_empty pages
      in if pages \<noteq> [] \<and> max 1 (int_three_tenths (length pages)) \<le> non_empty
         then (pages, False)
         else (let pm_pages = extract_pdf_pdfminer path;
                   non_empty_pm = count_non_empty pm_pages
               in if pm_pages \<noteq> [] \<and> 1 \<le> non_empty_pm then (pm_pages, False)
                  else ([], True)))"

definition extract_txt :: "raw_file \<Rightarrow> error + pystr list" where
  "extract_txt path =
     (case read_text path of None \<Rightarrow> Inl OSError | Some txt \<Rightarrow> Inr [clean_text txt])"

text \<open>
  \<open>re.sub(r"<[^>]+>", " ", html)\<close>: a \<open><\<close> (60) followed by one or more characters
  other than \<open>>\<close> (62) and then a \<open>>\<close> is replaced by one space.
\<close>

function sub_tags :: "pystr \<Rightarrow> pystr" where
  "sub_tags [] = []"
| "sub_tags (c # cs) =
     (if c = 60 \<and> takeWhile (\<lambda>x. x \<noteq> 62) cs \<noteq> [] \<and> dropWhile (\<lambda>x. x \<noteq> 62) cs \<noteq> []
      then 32 # sub_tags (tl (dropWhile (\<lambda>x. x \<noteq> 62) cs))
      else c # sub_tags cs)"
  by pat_completeness auto
termination
proof (relation "measure length")
  fix c :: pychar and cs :: pystr
  have "length (tl (dropWhile (\<lambda>x. x \<noteq> 62) cs)) \<le> length cs"
    using length_dropWhile_le[of "\<lambda>x. x \<noteq> 62" cs] by simp
  then show "(tl (dropWhile (\<lambda>x. x \<noteq> 62) cs), c # cs) \<in> measure length" by simp
qed simp_all

section \<open>Chunk records\<close>

text \<open>
  A row of \<open>sources.csv\<close> and a chunk record (the dict \<open>build_chunks_for_doc\<close> makes;
  its keys carry the prefix \<open>c_\<close>). Cell values are modelled as strings.
\<close>

record source_row =
  doc_id :: pystr
  title :: pystr
  url :: pystr
  fecha_descarga :: pystr
  vigencia :: pystr
  tipo :: pystr

record chunk =
  c_doc_id :: pystr
  c_title :: pystr
  c_page :: "nat option"
  c_url :: pystr
  c_vigencia :: pystr
  c_text :: pystr
  c_source_path :: pystr
  c_needs_ocr :: bool

definition placeholder :: "source_row \<Rightarrow> raw_file \<Rightarrow> chunk" where
  "placeholder row path =
     \<lparr>c_doc_id = doc_id row, c_title = title row, c_page = None, c_url = url row,
      c_vigencia = vigencia row, c_text = [], c_source_path = path_str path,
      c_needs_ocr = True\<rparr>"

definition page_chunk :: "source_row \<Rightarrow> raw_file \<Rightarrow> nat \<Rightarrow> pystr \<Rightarrow> chunk" where
  "page_chunk row path i ch =
     \<lparr>c_doc_id = doc_id row, c_title = title row, c_page = Some i, c_url = url row,
      c_vigencia = vigencia row, c_text = ch, c_source_path = path_str path,
      c_needs_ocr = False\<rparr>"

text \<open>
  The extension dispatch of \<open>build_chunks_for_doc\<close>: the page texts and the OCR flag,
  \<open>None\<close> for an unsupported extension, an error when reading the file raises.
  \<open>lower\<close> is \<open>str.lower\<close>, a parameter of the model.
\<close>

definition load_page_texts ::
  "(pystr \<Rightarrow> pystr) \<Rightarrow> raw_file \<Rightarrow> error + (pystr list \<times> bool) option" where
  "load_page_texts lower path =
     (let ext = lower (suffix path) in
      if ext = ustr ''.pdf'' then Inr (Some (extract_pdf_text path))
      else if ext \<in> set [ustr ''.txt'', ustr ''.text''] then
        (case extract_txt path of Inl e \<Rightarrow> Inl e | Inr pages \<Rightarrow> Inr (Some (pages, False)))
      else if ext \<in> set [ustr ''.html'', ustr ''.htm''] then
        (case read_text path of
           None \<Rightarrow> Inl OSError
         | Some html \<Rightarrow> Inr (Some ([clean_text (sub_tags html)], False)))
      else Inr None)"

text \<open>
  The loop over the pages, \<open>i\<close> the 1-based page number and \<open>chunks_rows\<close> the rows
  built so far. \<open>None\<close>: \<open>chunk_text\<close> does not return.
\<close>

fun page_rows ::
  "source_row \<Rightarrow> raw_file \<Rightarrow> nat \<Rightarrow> pystr list \<Rightarrow> chunk list \<Rightarrow> chunk list option" where
  "page_rows row path i [] chunks_rows = Some chunks_rows"
| "page_rows row path i (p # ps) chunks_rows =
     (let page_text = clean_text p in
      if page_text = [] \<or> length page_text < 30 then page_rows row path (i + 1) ps chunks_rows
      else (case chunk_text page_text CHUNK_SIZE CHUNK_OVERLAP of
              None \<Rightarrow> None
            | Some chs \<Rightarrow>
                page_rows row path (i + 1) ps (chunks_rows @ map (page_chunk row path i) chs)))"

definition build_chunks_for_doc ::
  "(pystr \<Rightarrow> pystr) \<Rightarrow> source_row \<Rightarrow> raw_file \<Rightarrow> chunk list outcome" where
  "build_chunks_for_doc lower row path =
     (case load_page_texts lower path of
        Inl e \<Rightarrow> Raise e
      | Inr None \<Rightarrow> Return []
      | Inr (Some (page_texts, needs_ocr)) \<Rightarrow>
          if needs_ocr then Return [placeholder row path]
          else (case page_rows row path 1 page_texts [] of
                  None \<Rightarrow> Diverge
                | Some chunks_rows \<Rightarrow> Return chunks_rows))"

section \<open>The ingestion run\<close>

definition required :: "pystr list" where
  "required = map ustr [''doc_id'', ''title'', ''url'', ''fecha_descarga'', ''vigencia'', ''tipo'']"

text \<open>
  \<open>read_sources_csv\<close>: the catalog is \<open>None\<close> when \<open>data/sources.csv\<close> does not exist,
  else its column names and its rows.
\<close>

definition read_sources_csv ::
  "(pystr list \<times> source_row list) option \<Rightarrow> error + source_row list" where
  "read_sources_csv src_csv =
     (case src_csv of
        None \<Rightarrow> Inl FileNotFoundError
      | Some (columns, df) \<Rightarrow>
          (case find (\<lambda>c. c \<notin> set columns) required of
             Some c \<Rightarrow> Inl (ValueError c)
           | None \<Rightarrow> Inr df))"

text \<open>
  \<open>re.sub(r"[^a-z0-9]+", " ", text)\<close>: every maximal run of characters outside
  \<open>a..z\<close> (97..122) and \<open>0..9\<close> (48..57) is replaced by one space.
\<close>

definition lower_alnum :: "pychar \<Rightarrow> bool" where
  "lower_alnum c \<longleftrightarrow> (97 \<le> c \<and> c \<le> 122) \<or> (48 \<le> c \<and> c \<le> 57)"

function sub_non_alnum :: "pystr \<Rightarrow> pystr" where
  "sub_non_alnum [] = []"
| "sub_non_alnum (c # cs) =
     (if lower_alnum c then c # sub_non_alnum cs
      else 32 # sub_non_alnum (dropWhile (\<lambda>x. \<not> lower_alnum x) cs))"
  by pat_completeness auto
termination
  by (relation "measure length") (auto simp: less_Suc_eq_le length_dropWhile_le)

text \<open>Stage 1 of the resolver: the first file whose stem contains the doc_id.\<close>

definition find_by_doc_id ::
  "(pystr \<Rightarrow> pystr) \<Rightarrow> raw_file list \<Rightarrow> pystr \<Rightarrow> raw_file option" where
  "find_by_doc_id lower files d = find (\<lambda>f. contains (lower d) (lower (stem f))) files"

text \<open>Stage 2: the key of the title, and the first file whose stem contains it.\<close>

definition title_key :: "(pystr \<Rightarrow> pystr) \<Rightarrow> pystr \<Rightarrow> pystr" where
  "title_key lower t = join (ustr ''_'') (take 3 (split_ws (sub_non_alnum (lower t))))"

definition find_by_title ::
  "(pystr \<Rightarrow> pystr) \<Rightarrow> raw_file list \<Rightarrow> pystr \<Rightarrow> raw_file option" where
  "find_by_title lower files t =
     (let key = title_key lower t
      in find (\<lambda>f. key \<noteq> [] \<and> contains key (lower (stem f))) files)"

definition resolve ::
  "(pystr \<Rightarrow> pystr) \<Rightarrow> raw_file list \<Rightarrow> source_row \<Rightarrow> raw_file option" where
  "resolve lower files row =
     (case find_by_doc_id lower files (doc_id row) of
        Some f \<Rightarrow> Some f
      | None \<Rightarrow> find_by_title lower files (title row))"

text \<open>The state of the loop over the catalog: the rows collected and the missing ids.\<close>

record run_state =
  all_rows :: "chunk list"
  missing :: "pystr list"

fun main_loop ::
  "(pystr \<Rightarrow> pystr) \<Rightarrow> raw_file list \<Rightarrow> source_row list \<Rightarrow> run_state \<Rightarrow> run_state outcome"
  where
  "main_loop lower files [] st = Return st"
| "main_loop lower files (row # df) st =
     (case resolve lower files row of
        None \<Rightarrow> main_loop lower files df (st\<lparr>missing := missing st @ [doc_id row]\<rparr>)
      | Some candidate \<Rightarrow>
          (case build_chunks_for_doc lower row candidate of
             Return rows \<Rightarrow> main_loop lower files df (st\<lparr>all_rows := all_rows st @ rows\<rparr>)
           | Raise e \<Rightarrow> Raise e
           | Diverge \<Rightarrow> Diverge))"

text \<open>
  What a run reads: the catalog and the files of \<open>data/raw\<close> in listing order. A run
  that returns has written \<open>all_rows\<close> of its final state to \<open>chunks.parquet\<close>.
\<close>

record environment =
  sources_csv :: "(pystr list \<times> source_row list) option"
  raw_dir :: "raw_file list"

definition main :: "(pystr \<Rightarrow> pystr) \<Rightarrow> environment \<Rightarrow> run_state outcome" where
  "main lower env =
     (case read_sources_csv (sources_csv env) of
        Inl e \<Rightarrow> Raise e
      | Inr df_src \<Rightarrow>
          (let files = raw_dir env in
           if files = [] then Raise (SystemExit 1)
           else (case main_loop lower files df_src \<lparr>all_rows = [], missing = []\<rparr> of
                   Return st \<Rightarrow> if all_rows st = [] then Raise (SystemExit 1) else Return st
                 | Raise e \<Rightarrow> Raise e
                 | Diverge \<Rightarrow> Diverge)))"

text \<open>\<open>str.lower\<close> on ASCII text, the instance of \<open>lower\<close> used in the examples.\<close>

definition ascii_lower :: "pystr \<Rightarrow> pystr" where
  "ascii_lower s = map (\<lambda>c. if 65 \<le> c \<and> c \<le> 90 then c + 32 else c) s"

section \<open>Example inputs\<close>

text \<open>
  A catalog row, a constructor for files of \<open>data/raw\<close> (the path string is the
  directory, the stem and the suffix), and a text of \<open>n\<close> letters \<open>a\<close>.
\<close>

definition example_row :: source_row where
  "example_row =
     \<lparr>doc_id = ustr ''R001'', title = ustr ''Reglamento de Convivencia Universitaria'',
      url = ustr ''https://example.org/r001'', fecha_descarga = ustr ''2024-01-01'',
      vigencia = ustr ''vigente'', tipo = ustr ''reglamento''\<rparr>"

definition raw_path ::
  "pystr \<Rightarrow> pystr \<Rightarrow> pystr option \<Rightarrow> pystr list option \<Rightarrow> pystr option \<Rightarrow> raw_file" where
  "raw_path st sf rt pp pm =
     \<lparr>stem = st, suffix = sf, path_str = ustr ''data/raw/'' @ st @ sf, read_text = rt,
      pypdf_pages = pp, pdfminer_text = pm\<rparr>"

definition letters :: "nat \<Rightarrow> pystr" where
  "letters n = replicate n 97"

section \<open>Normal forms of the normalizer\<close>

text \<open>
  Two predicates on strings, used to state what \<open>clean_text\<close> establishes: no two
  adjacent spaces, and no three adjacent line feeds.
\<close>

fun no_double_space :: "pystr \<Rightarrow> bool" where
  "no_double_space (a # b # cs) = (\<not> (a = 32 \<and> b = 32) \<and> no_double_space (b # cs))"
| "no_double_space _ = True"

fun no_triple_newline :: "pystr \<Rightarrow> bool" where
  "no_triple_newline (a # b # c # cs) =
     (\<not> (a = 10 \<and> b = 10 \<and> c = 10) \<and> no_triple_newline (b # c # cs))"
| "no_triple_newline _ = True"

section \<open>Properties of the chunker\<close>

subsection \<open>Slices and the window walk\<close>

lemma pyslice_nat:
  "pyslice xs (int a) (int b)
     = take (min (length xs) b - min (length xs) a) (drop (min (length xs) a) xs)"
  by (simp add: pyslice_def slice_bound_def Let_def)

lemma pyslice_window:
  assumes "a \<le> length xs"
  shows "pyslice xs (int a) (min (int (length xs)) (int a + int sz)) = take sz (drop a xs)"
proof -
  have "min (int (length xs)) (int a + int sz) = int (min (length xs) (a + sz))" by simp
  then show ?thesis using assms
    by (simp only: pyslice_nat) (auto simp: min_def)
qed

lemma pyslice_take_drop:
  "pyslice xs (int a) (int a + int sz) = take sz (drop a xs)"
proof -
  have "int a + int sz = int (a + sz)" by simp
  then show ?thesis
    by (simp only: pyslice_nat) (auto simp: min_def)
qed

lemma chunk_loop_windows:
  assumes "ov < sz"
  shows "s < length t \<Longrightarrow>
     \<exists>k\<ge>1. chunk_loop t (int sz) (int ov) (int s) acc
            = Some (acc @ map (\<lambda>i. take sz (drop (s + i * (sz - ov)) t)) [0..<k])
          \<and> length t \<le> s + (k - 1) * (sz - ov) + sz
          \<and> (2 \<le> k \<longrightarrow> s + (k - 2) * (sz - ov) + sz < length t)"
proof (induction "length t - s" arbitrary: s acc rule: less_induct)
  case less
  let ?n = "length t"
  let ?d = "sz - ov"
  have sl: "pyslice t (int s) (min (int ?n) (int s + int sz)) = take sz (drop s t)"
    using less.prems by (intro pyslice_window) simp
  show ?case
  proof (cases "s + sz < ?n")
    case False
    then have e: "min (int ?n) (int s + int sz) = int ?n" by simp
    have "chunk_loop t (int sz) (int ov) (int s) acc
            = Some (acc @ [pyslice t (int s) (min (int ?n) (int s + int sz))])"
      using less.prems e by (subst chunk_loop.simps) (simp add: Let_def)
    then have "chunk_loop t (int sz) (int ov) (int s) acc
            = Some (acc @ map (\<lambda>i. take sz (drop (s + i * ?d) t)) [0..<1])"
      by (simp add: sl)
    moreover have "length t \<le> s + (1 - 1) * ?d + sz" using False by simp
    ultimately show ?thesis by (intro exI[of _ 1]) simp
  next
    case True
    let ?s' = "s + ?d"
    let ?acc' = "acc @ [take sz (drop s t)]"
    have s': "?s' < ?n" "?n - ?s' < ?n - s" using True assms by auto
    from less.hyps[OF s'(2) s'(1), of ?acc']
    obtain k where k: "k \<ge> 1"
      "chunk_loop t (int sz) (int ov) (int ?s') ?acc'
         = Some (?acc' @ map (\<lambda>i. take sz (drop (?s' + i * ?d) t)) [0..<k])"
      "length t \<le> ?s' + (k - 1) * ?d + sz"
      "2 \<le> k \<longrightarrow> ?s' + (k - 2) * ?d + sz < length t"
      by blast
    have e: "min (int ?n) (int s + int sz) = int s + int sz" "int s + int sz \<noteq> int ?n"
      using True by auto
    have nx: "max 0 (int s + int sz - int ov) = int ?s'" using assms by auto
    have "chunk_loop t (int sz) (int ov) (int s) acc
        = chunk_loop t (int sz) (int ov) (int ?s') ?acc'"
      using less.prems e(2)
      by (subst chunk_loop.simps) (simp add: Let_def sl[unfolded e(1)] e(1) nx)
    also note k(2)
    also have "?acc' @ map (\<lambda>i. take sz (drop (?s' + i * ?d) t)) [0..<k]
       = acc @ map (\<lambda>i. take sz (drop (s + i * ?d) t)) [0..<Suc k]"
      by (simp add: map_upt_Suc add.assoc del: upt_Suc)
    finally have A: "chunk_loop t (int sz) (int ov) (int s) acc
        = Some (acc @ map (\<lambda>i. take sz (drop (s + i * ?d) t)) [0..<Suc k])" .
    have shift: "?s' + j * ?d = s + Suc j * ?d" for j by simp
    have B: "length t \<le> s + (Suc k - 1) * ?d + sz"
      using k(3) k(1) shift[of "k - 1"] by simp
    have C: "s + (Suc k - 2) * ?d + sz < length t"
    proof (cases "k = 1")
      case True
      then show ?thesis using \<open>s + sz < ?n\<close> by simp
    next
      case False
      then have k2: "2 \<le> k" using k(1) by simp
      then have "Suc (k - 2) = Suc k - 2" by simp
      then show ?thesis using k(4) k2 shift[of "k - 2"] by simp
    qed
    show ?thesis using A B C by (intro exI[of _ "Suc k"]) simp
  qed
qed

lemma chunk_text_windows:
  assumes "ov < sz" and "sz < length (strip T)"
  shows "\<exists>k\<ge>2. chunk_text T (int sz) (int ov)
            = Some (map (\<lambda>i. take sz (drop (i * (sz - ov)) (strip T))) [0..<k])
          \<and> length (strip T) \<le> (k - 1) * (sz - ov) + sz
          \<and> (k - 2) * (sz - ov) + sz < length (strip T)"
proof -
  let ?t = "strip T"
  have "0 < length ?t" using assms by linarith
  from chunk_loop_windows[OF assms(1) this, of "[]"]
  obtain k where k: "k \<ge> 1"
      "chunk_loop ?t (int sz) (int ov) 0 [] = Some (map (\<lambda>i. take sz (drop (i * (sz - ov)) ?t)) [0..<k])"
      "length ?t \<le> (k - 1) * (sz - ov) + sz"
      "2 \<le> k \<longrightarrow> (k - 2) * (sz - ov) + sz < length ?t"
    by auto
  have "k \<noteq> 1" using k(3) assms(2) by auto
  then have k2: "2 \<le> k" using k(1) by simp
  have "chunk_text T (int sz) (int ov) = chunk_loop ?t (int sz) (int ov) 0 []"
    using assms(2) by (simp add: chunk_text_def Let_def)
  then show ?thesis using k k2 by auto
qed


lemma strip_replicate:
  "\<not> isspace c \<Longrightarrow> strip (replicate m c) = replicate m c"
  by (cases m) (simp_all add: strip_def replicate_append_same[symmetric] del: replicate_Suc)

lemma chunk_loop_terminates:
  assumes "overlap < sz"
  shows "0 \<le> start \<Longrightarrow> \<exists>cs. chunk_loop t sz overlap start acc = Some cs"
proof (induction "nat (int (length t) - start)" arbitrary: start acc rule: less_induct)
  case less
  let ?n = "int (length t)"
  show ?case
  proof (cases "start < ?n")
    case False
    then show ?thesis by (subst chunk_loop.simps) (simp add: Let_def)
  next
    case True
    show ?thesis
    proof (cases "min ?n (start + sz) = ?n")
      case e: True
      then show ?thesis using True by (subst chunk_loop.simps) (simp add: Let_def)
    next
      case e: False
      then have en: "min ?n (start + sz) = start + sz" by (simp add: min_def split: if_splits)
      let ?s' = "max 0 (start + sz - overlap)"
      have "start < ?s'" using assms less.prems by simp
      then have "nat (?n - ?s') < nat (?n - start)" "0 \<le> ?s'" using True by auto
      from less.hyps[OF this]
      obtain cs where "chunk_loop t sz overlap ?s' (acc @ [pyslice t start (start + sz)]) = Some cs"
        by blast
      then show ?thesis using True e
        by (subst chunk_loop.simps) (simp add: Let_def en)
    qed
  qed
qed

lemma chunk_loop_stuck:
  assumes "sz \<le> overlap" and "sz < int (length t)" and "t \<noteq> []"
  shows "chunk_loop t sz overlap 0 acc = None"
proof -
  have m: "min (int (length t)) (0 + sz) = sz" "sz \<noteq> int (length t)"
      "max 0 (sz - overlap) = 0" "0 < int (length t)"
    using assms by auto
  have "False" if ret: "chunk_loop t sz overlap 0 acc = Some y" for y
  proof -
    have "\<not> (t = t \<and> sz = sz \<and> overlap = overlap \<and> (0::int) = 0)"
    proof (rule chunk_loop.raw_induct
        [where P = "\<lambda>tx s ov start chunks y. \<not> (tx = t \<and> s = sz \<and> ov = overlap \<and> start = 0)",
         OF _ ret])
      fix loop tx s ov start chunks y
      assume IH: "\<And>a b c d e y. loop a b c d e = Some y
                    \<Longrightarrow> \<not> (a = t \<and> b = sz \<and> c = overlap \<and> d = 0)"
        and step: "(let n = int (length tx) in
                    if start < n then
                      (let end = min n (start + s);
                           chunk = pyslice tx start end;
                           chunks' = chunks @ [chunk]
                       in if end = n then Some chunks'
                          else loop tx s ov (max 0 (end - ov)) chunks')
                    else Some chunks) = Some y"
      show "\<not> (tx = t \<and> s = sz \<and> ov = overlap \<and> start = 0)"
      proof
        assume eq: "tx = t \<and> s = sz \<and> ov = overlap \<and> start = 0"
        with step m have "loop t sz overlap 0 (chunks @ [pyslice t 0 sz]) = Some y"
          by (simp add: Let_def)
        from IH[OF this] show False by simp
      qed
    qed
    then show False by simp
  qed
  then have "chunk_loop t sz overlap 0 acc \<noteq> Some y" for y by blast
  then show ?thesis by (cases "chunk_loop t sz overlap 0 acc") auto
qed

lemma strip_short: "strip [32, 97, 98, 32] = [97, 98]"
  by (simp add: strip_def isspace_def)

lemma strip_abc: "strip [97, 98, 99] = [97, 98, 99]"
  by (simp add: strip_def isspace_def)

lemma strip_blank: "strip [32, 32] = []"
  by (simp add: strip_def isspace_def)

subsection \<open>Claims about the chunker\<close>

text \<open>
  C1. For a text whose trimmed length exceeds \<open>size\<close> and \<open>0 \<le> overlap < size\<close>,
  \<open>chunk_text\<close> returns the windows that start at 0 and advance by \<open>size - overlap\<close>,
  each clipped to the text: window \<open>i\<close> is the slice
  \<open>[i * (size - overlap) : i * (size - overlap) + size]\<close>. Every position of the text
  lies in a returned window, which holds the character of that position; every window
  but the last has \<open>size\<close> characters and the last one ends where the text ends; two
  consecutive windows share exactly \<open>overlap\<close> positions, the last \<open>overlap\<close>
  characters of the first being the first \<open>overlap\<close> characters of the second (the
  final pair included). A text of 4500 characters
  with size 3800 and overlap 500 gives the two chunks \<open>[0:3800]\<close> and \<open>[3300:4500]\<close>.
\<close>

theorem chunk_text_sliding_windows:
  "(sz < int (length (strip T)) \<and> 0 \<le> overlap \<and> overlap < sz \<longrightarrow>
      (\<exists>cs. chunk_text T sz overlap = Some cs \<and> cs \<noteq> [] \<and>
         (\<forall>i<length cs.
            cs ! i = pyslice (strip T) (int i * (sz - overlap)) (int i * (sz - overlap) + sz)) \<and>
         (\<forall>j<length (strip T). \<exists>i<length cs.
            i * nat (sz - overlap) \<le> j \<and> j < i * nat (sz - overlap) + length (cs ! i) \<and>
            cs ! i ! (j - i * nat (sz - overlap)) = strip T ! j) \<and>
         (\<forall>i. Suc i < length cs \<longrightarrow>
            length (cs ! i) = nat sz \<and>
            card ({i * nat (sz - overlap) ..< i * nat (sz - overlap) + length (cs ! i)} \<inter>
                  {Suc i * nat (sz - overlap) ..<
                     Suc i * nat (sz - overlap) + length (cs ! Suc i)}) = nat overlap \<and>
            drop (nat (sz - overlap)) (cs ! i) = take (nat overlap) (cs ! Suc i)) \<and>
         (length cs - 1) * nat (sz - overlap) + length (last cs) = length (strip T))) \<and>
   (length (strip U) = 4500 \<longrightarrow>
      chunk_text U 3800 500 = Some [pyslice (strip U) 0 3800, pyslice (strip U) 3300 4500])"
proof (intro conjI impI)
  assume "sz < int (length (strip T)) \<and> 0 \<le> overlap \<and> overlap < sz"
  then have h: "sz < int (length (strip T))" "0 \<le> overlap" "overlap < sz" by auto
  define t where "t = strip T"
  define n where "n = length t"
  define s where "s = nat sz"
  define ov where "ov = nat overlap"
  define d where "d = s - ov"
  have sz: "sz = int s" and ovl: "overlap = int ov" and lt: "ov < s" "s < n"
    using h by (auto simp: s_def ov_def n_def t_def)
  have d: "nat (sz - overlap) = d" "sz - overlap = int d" "0 < d" "d + ov = s"
    using lt by (auto simp: d_def sz ovl)
  from chunk_text_windows[of ov s T] lt
  obtain k where k: "2 \<le> k"
      "chunk_text T sz overlap = Some (map (\<lambda>i. take s (drop (i * d) t)) [0..<k])"
      "n \<le> (k - 1) * d + s" "(k - 2) * d + s < n"
    unfolding sz ovl d_def t_def n_def by blast
  define cs where "cs = map (\<lambda>i. take s (drop (i * d) t)) [0..<k]"
  have len: "length cs = k" by (simp add: cs_def)
  have nth: "cs ! i = take s (drop (i * d) t)" if "i < k" for i
    using that by (simp add: cs_def)
  have full: "i * d + s < n" if "Suc i < k" for i
  proof -
    have "i \<le> k - 2" using that by simp
    then have "i * d \<le> (k - 2) * d" by (rule mult_le_mono1)
    then show ?thesis using k(4) by linarith
  qed
  have last_start: "(k - 1) * d + ov < n"
  proof -
    have "(k - 1) * d = (k - 2) * d + d" using k(1)
      by (metis Suc_diff_Suc Suc_1 add.commute mult_Suc Suc_le_lessD)
    then show ?thesis using k(4) d(4) by simp
  qed
  have lenw: "length (cs ! i) = min s (n - i * d)" if "i < k" for i
    using that by (simp add: nth n_def)
  have len_full: "length (cs ! i) = s" if "Suc i < k" for i
    using full[OF that] that by (simp add: lenw)
  have len_ge: "ov < length (cs ! i)" if "i < k" for i
  proof (cases "Suc i < k")
    case True then show ?thesis using len_full lt by simp
  next
    case False
    then have "i = k - 1" using that by simp
    then show ?thesis using last_start lt that by (simp add: lenw)
  qed
  have P1: "\<forall>i<length cs. cs ! i = pyslice t (int i * (sz - overlap)) (int i * (sz - overlap) + sz)"
  proof (intro allI impI)
    fix i assume "i < length cs"
    then have "cs ! i = take s (drop (i * d) t)" using nth len by simp
    moreover have "int i * (sz - overlap) = int (i * d)" using d(2) by simp
    ultimately show "cs ! i = pyslice t (int i * (sz - overlap)) (int i * (sz - overlap) + sz)"
      by (simp only: sz pyslice_take_drop)
  qed
  have P2: "\<forall>j<length t. \<exists>i<length cs.
            i * nat (sz - overlap) \<le> j \<and> j < i * nat (sz - overlap) + length (cs ! i) \<and>
            cs ! i ! (j - i * nat (sz - overlap)) = t ! j"
  proof (intro allI impI)
    fix j assume j: "j < length t"
    define i where "i = min (j div d) (k - 1)"
    have ik: "i < k" using k(1) by (simp add: i_def)
    have lo: "i * d \<le> j"
    proof -
      have "i * d \<le> (j div d) * d" by (simp add: i_def)
      then show ?thesis by (metis div_times_less_eq_dividend le_trans)
    qed
    have hi: "j < i * d + length (cs ! i)"
    proof (cases "j div d \<le> k - 1")
      case True
      then have "i = j div d" by (simp add: i_def)
      then have "j < i * d + d" using d(3)
        by (metis add.commute dividend_less_div_times mult.commute)
      then have "j < i * d + s" using d(4) by simp
      then show ?thesis using j lo by (simp add: lenw[OF ik] n_def)
    next
      case False
      then have "i = k - 1" by (simp add: i_def)
      then have "j < i * d + s" using j k(3) by (simp add: n_def)
      then show ?thesis using j lo by (simp add: lenw[OF ik] n_def)
    qed
    have "cs ! i ! (j - i * d) = t ! j"
      using lo hi j by (simp add: nth[OF ik])
    then show "\<exists>i<length cs.
            i * nat (sz - overlap) \<le> j \<and> j < i * nat (sz - overlap) + length (cs ! i) \<and>
            cs ! i ! (j - i * nat (sz - overlap)) = t ! j"
      using ik lo hi unfolding d(1) len by blast
  qed
  have P3: "\<forall>i. Suc i < length cs \<longrightarrow>
            length (cs ! i) = nat sz \<and>
            card ({i * nat (sz - overlap) ..< i * nat (sz - overlap) + length (cs ! i)} \<inter>
                  {Suc i * nat (sz - overlap) ..<
                     Suc i * nat (sz - overlap) + length (cs ! Suc i)}) = nat overlap \<and>
            drop (nat (sz - overlap)) (cs ! i) = take (nat overlap) (cs ! Suc i)"
  proof (intro allI impI)
    fix i assume "Suc i < length cs"
    then have i: "Suc i < k" using len by simp
    then have ik: "i < k" by simp
    have l1: "length (cs ! i) = s" using len_full[OF i] .
    have l2: "ov < length (cs ! Suc i)" using len_ge[OF i] .
    have "{i * d ..< i * d + s} \<inter> {Suc i * d ..< Suc i * d + length (cs ! Suc i)}
        = {Suc i * d ..< i * d + s}"
      using l2 d(4) by auto
    moreover have "card {Suc i * d ..< i * d + s} = ov" using d(4) by simp
    ultimately have c: "card ({i * d ..< i * d + length (cs ! i)} \<inter>
                  {Suc i * d ..< Suc i * d + length (cs ! Suc i)}) = ov"
      by (simp only: l1)
    have "drop d (cs ! i) = take ov (drop (Suc i * d) t)"
    proof -
      have "drop d (take s (drop (i * d) t)) = take (s - d) (drop (d + i * d) t)"
        by (simp add: drop_take)
      moreover have "s - d = ov" using d(4) by simp
      ultimately show ?thesis by (simp add: nth[OF ik])
    qed
    moreover have "take ov (cs ! Suc i) = take ov (drop (Suc i * d) t)"
      using lt by (simp add: nth[OF i] min_def)
    ultimately show "length (cs ! i) = nat sz \<and>
            card ({i * nat (sz - overlap) ..< i * nat (sz - overlap) + length (cs ! i)} \<inter>
                  {Suc i * nat (sz - overlap) ..<
                     Suc i * nat (sz - overlap) + length (cs ! Suc i)}) = nat overlap \<and>
            drop (nat (sz - overlap)) (cs ! i) = take (nat overlap) (cs ! Suc i)"
      using c l1 unfolding d(1) by (simp add: ov_def s_def)
  qed
  have ne: "cs \<noteq> []" using len k(1) by auto
  have P4: "(length cs - 1) * nat (sz - overlap) + length (last cs) = length t"
  proof -
    have k1: "k - 1 < k" using k(1) by simp
    have "last cs = cs ! (k - 1)" using ne len by (simp add: last_conv_nth)
    then have "length (last cs) = min s (n - (k - 1) * d)" using lenw[OF k1] by simp
    then have "length (last cs) = n - (k - 1) * d" using k(3) by simp
    then show ?thesis using last_start unfolding d(1) len n_def by simp
  qed
  show "\<exists>cs. chunk_text T sz overlap = Some cs \<and> cs \<noteq> [] \<and>
         (\<forall>i<length cs.
            cs ! i = pyslice (strip T) (int i * (sz - overlap)) (int i * (sz - overlap) + sz)) \<and>
         (\<forall>j<length (strip T). \<exists>i<length cs.
            i * nat (sz - overlap) \<le> j \<and> j < i * nat (sz - overlap) + length (cs ! i) \<and>
            cs ! i ! (j - i * nat (sz - overlap)) = strip T ! j) \<and>
         (\<forall>i. Suc i < length cs \<longrightarrow>
            length (cs ! i) = nat sz \<and>
            card ({i * nat (sz - overlap) ..< i * nat (sz - overlap) + length (cs ! i)} \<inter>
                  {Suc i * nat (sz - overlap) ..<
                     Suc i * nat (sz - overlap) + length (cs ! Suc i)}) = nat overlap \<and>
            drop (nat (sz - overlap)) (cs ! i) = take (nat overlap) (cs ! Suc i)) \<and>
         (length cs - 1) * nat (sz - overlap) + length (last cs) = length (strip T)"
    using k(2) ne P1 P2 P3 P4 unfolding cs_def[symmetric] t_def[symmetric] by blast
next
  assume len: "length (strip U) = 4500"
  define t where "t = strip U"
  from chunk_text_windows[of 500 3800 U] len
  obtain k where k: "2 \<le> k"
      "chunk_text U 3800 500 = Some (map (\<lambda>i. take 3800 (drop (i * 3300) t)) [0..<k])"
      "4500 \<le> (k - 1) * 3300 + (3800::nat)" "(k - 2) * 3300 + 3800 < (4500::nat)"
    unfolding t_def by auto
  have "k = 2" using k(1,4) by (cases "k = 2") auto
  then have "chunk_text U 3800 500 = Some [take 3800 t, take 3800 (drop 3300 t)]"
    using k(2) by (simp add: numeral_2_eq_2)
  moreover have "pyslice t 0 3800 = take 3800 t"
    using pyslice_nat[of t 0 3800] len by (simp add: t_def)
  moreover have "pyslice t 3300 4500 = take 3800 (drop 3300 t)"
    using pyslice_nat[of t 3300 4500] len by (simp add: t_def)
  ultimately show "chunk_text U 3800 500 = Some [pyslice (strip U) 0 3800, pyslice (strip U) 3300 4500]"
    by (simp add: t_def)
qed

theorem chunk_text_sliding_windows_witness:
  "(4 < int (length (strip [32, 97, 98, 99, 100, 101, 102, 103, 104, 105, 106, 32]))
      \<and> (0::int) \<le> 1 \<and> (1::int) < 4)
   \<and> chunk_text [32, 97, 98, 99, 100, 101, 102, 103, 104, 105, 106, 32] 4 1
       = Some [[97, 98, 99, 100], [100, 101, 102, 103], [103, 104, 105, 106]]
   \<and> (\<exists>cs. chunk_text [32, 97, 98, 99, 100, 101, 102, 103, 104, 105, 106, 32] 4 1 = Some cs
         \<and> cs \<noteq> []
         \<and> (\<forall>j<length (strip [32, 97, 98, 99, 100, 101, 102, 103, 104, 105, 106, 32]).
               \<exists>i<length cs. i * nat (4 - 1) \<le> j \<and> j < i * nat (4 - 1) + length (cs ! i)))
   \<and> length (strip (replicate 4500 97)) = 4500
   \<and> chunk_text (replicate 4500 97) 3800 500 = Some [replicate 3800 97, replicate 1200 97]"
proof -
  let ?T = "[32, 97, 98, 99, 100, 101, 102, 103, 104, 105, 106, 32] :: pystr"
  let ?U = "replicate 4500 97 :: pystr"
  have sT: "strip ?T = [97, 98, 99, 100, 101, 102, 103, 104, 105, 106]"
    by (simp add: strip_def isspace_def)
  have h: "4 < int (length (strip ?T)) \<and> (0::int) \<le> 1 \<and> (1::int) < 4"
    by (simp add: sT)
  let ?t = "[97, 98, 99, 100, 101, 102, 103, 104, 105, 106] :: pystr"
  have w3: "chunk_loop ?t 4 1 6 [[97, 98, 99, 100], [100, 101, 102, 103]]
      = Some [[97, 98, 99, 100], [100, 101, 102, 103], [103, 104, 105, 106]]"
    by (subst chunk_loop.simps) (simp add: pyslice_def slice_bound_def)
  have w2: "chunk_loop ?t 4 1 3 [[97, 98, 99, 100]]
      = Some [[97, 98, 99, 100], [100, 101, 102, 103], [103, 104, 105, 106]]"
    by (subst chunk_loop.simps) (simp add: pyslice_def slice_bound_def w3)
  have w1: "chunk_loop ?t 4 1 0 []
      = Some [[97, 98, 99, 100], [100, 101, 102, 103], [103, 104, 105, 106]]"
    by (subst chunk_loop.simps) (simp add: pyslice_def slice_bound_def w2)
  have v: "chunk_text ?T 4 1 = Some [[97, 98, 99, 100], [100, 101, 102, 103], [103, 104, 105, 106]]"
    by (simp add: chunk_text_def sT w1)
  have sU: "strip ?U = ?U"
    by (rule strip_replicate) (simp add: isspace_def)
  have lU: "length (strip ?U) = 4500" by (simp only: sU length_replicate)
  note inst = chunk_text_sliding_windows[of 4 ?T 1 ?U]
  from inst h have e: "\<exists>cs. chunk_text ?T 4 1 = Some cs \<and> cs \<noteq> []
         \<and> (\<forall>j<length (strip ?T).
               \<exists>i<length cs. i * nat (4 - 1) \<le> j \<and> j < i * nat (4 - 1) + length (cs ! i))"
    by blast
  from inst lU have "chunk_text ?U 3800 500 = Some [pyslice (strip ?U) 0 3800, pyslice (strip ?U) 3300 4500]"
    by blast
  then have u: "chunk_text ?U 3800 500 = Some [replicate 3800 97, replicate 1200 97]"
    by (simp add: sU pyslice_def slice_bound_def)
  show ?thesis using h v e lU u by blast
qed

text \<open>
  C2. When the trimmed text has at most \<open>size\<close> characters, \<open>chunk_text\<close> returns exactly
  the one-element list holding the trimmed text.
\<close>

theorem chunk_text_short:
  "int (length (strip T)) \<le> sz \<Longrightarrow> chunk_text T sz overlap = Some [strip T]"
  by (simp add: chunk_text_def Let_def)

theorem chunk_text_short_witness:
  "int (length (strip [32, 97, 98, 32])) \<le> 5 \<and> chunk_text [32, 97, 98, 32] 5 1 = Some [[97, 98]]"
proof -
  have h: "int (length (strip [32, 97, 98, 32])) \<le> 5" by (simp add: strip_short)
  from chunk_text_short[OF h, of 1] h show ?thesis by (simp add: strip_short)
qed

text \<open>
  C3, as the code has it. \<open>chunk_text\<close> does not check \<open>overlap\<close> against \<open>size\<close> and
  raises no error: with \<open>overlap \<ge> size\<close> it returns the one-element list of the trimmed
  text whenever that text has at most \<open>size\<close> characters. It returns on every text when
  \<open>overlap < size\<close>.
\<close>

theorem chunk_text_no_rejection:
  "(sz \<le> overlap \<and> int (length (strip T)) \<le> sz \<longrightarrow> chunk_text T sz overlap = Some [strip T])
   \<and> (overlap < sz \<longrightarrow> (\<exists>cs. chunk_text T sz overlap = Some cs))"
proof (intro conjI impI)
  assume "sz \<le> overlap \<and> int (length (strip T)) \<le> sz"
  then show "chunk_text T sz overlap = Some [strip T]"
    by (simp add: chunk_text_def Let_def)
next
  assume "overlap < sz"
  from chunk_loop_terminates[OF this, of 0 "strip T" "[]"]
  show "\<exists>cs. chunk_text T sz overlap = Some cs"
    by (auto simp: chunk_text_def Let_def)
qed

theorem chunk_text_no_rejection_witness:
  "((5::int) \<le> 7 \<and> int (length (strip [97, 98, 99])) \<le> 5)
   \<and> chunk_text [97, 98, 99] 5 7 = Some [[97, 98, 99]]
   \<and> (1::int) < 2 \<and> (\<exists>cs. chunk_text [97, 98, 99] 2 1 = Some cs)"
  using chunk_text_no_rejection[of 5 7 "[97, 98, 99]"] chunk_text_no_rejection[of 2 1 "[97, 98, 99]"]
  by (simp add: strip_abc)

text \<open>
  The claim C3 as stated fails: with size 5 and overlap 7 the text \<open>abc\<close> is chunked
  without any error, and with size 2 and overlap 2 the call never returns.
\<close>

theorem chunk_text_rejection_counterexample:
  "(5::int) \<le> 7 \<and> chunk_text [97, 98, 99] 5 7 = Some [[97, 98, 99]]
   \<and> (2::int) \<le> 2 \<and> chunk_text [97, 98, 99] 2 2 = None"
proof -
  have "chunk_text [97, 98, 99] 5 7 = Some [[97, 98, 99]]"
    by (simp add: chunk_text_def strip_abc)
  moreover have "chunk_text [97, 98, 99] 2 2 = None"
    using chunk_loop_stuck[of 2 2 "[97, 98, 99]" "[]"] by (simp add: chunk_text_def strip_abc)
  ultimately show ?thesis by simp
qed

text \<open>
  C4, as the code has it. For a text that is empty after trimming and a size that is not
  negative, \<open>chunk_text\<close> returns the one-element list holding the empty string; it
  returns the empty list only for a negative size.
\<close>

theorem chunk_text_empty:
  "strip T = [] \<longrightarrow> chunk_text T sz overlap = (if 0 \<le> sz then Some [[]] else Some [])"
proof
  assume e: "strip T = []"
  show "chunk_text T sz overlap = (if 0 \<le> sz then Some [[]] else Some [])"
  proof (cases "0 \<le> sz")
    case True
    then show ?thesis by (simp add: chunk_text_def e)
  next
    case False
    have "chunk_loop [] sz overlap 0 [] = Some []"
      by (subst chunk_loop.simps) simp
    then show ?thesis using False by (simp add: chunk_text_def e)
  qed
qed

theorem chunk_text_empty_witness:
  "strip [32, 32] = [] \<and> chunk_text [32, 32] 3800 500 = Some [[]]
   \<and> chunk_text [32, 32] (- 1) 500 = Some []"
  using chunk_text_empty[of "[32, 32]" 3800 500] chunk_text_empty[of "[32, 32]" "- 1" 500]
  by (simp add: strip_blank)

text \<open>
  The claim C4 as stated fails: the blank text of two spaces, chunked with the default
  size and overlap, gives a list that holds the empty string, not the empty list.
\<close>

theorem chunk_text_empty_counterexample:
  "strip [32, 32] = [] \<and> chunk_text [32, 32] CHUNK_SIZE CHUNK_OVERLAP = Some [[]]
   \<and> chunk_text [32, 32] CHUNK_SIZE CHUNK_OVERLAP \<noteq> Some []"
  by (simp add: chunk_text_def strip_blank CHUNK_SIZE_def CHUNK_OVERLAP_def)

section \<open>Properties of the normalizer\<close>

subsection \<open>The substitutions and their normal forms\<close>

lemma nds_Cons: "no_double_space (a # ys) \<longleftrightarrow> (ys = [] \<or> \<not> (a = 32 \<and> hd ys = 32)) \<and> no_double_space ys"
  by (cases ys) auto

lemma nds_suffix: "no_double_space (xs @ ys) \<Longrightarrow> no_double_space ys"
  by (induction xs) (auto simp: nds_Cons)

lemma nds_prefix: "no_double_space (xs @ ys) \<Longrightarrow> no_double_space xs"
  by (induction xs rule: no_double_space.induct) auto

lemma ntn_suffix: "no_triple_newline (xs @ ys) \<Longrightarrow> no_triple_newline ys"
proof (induction xs)
  case (Cons a xs)
  then show ?case by (cases "xs @ ys" rule: no_triple_newline.cases) (auto split: if_splits)
qed simp

lemma ntn_prefix: "no_triple_newline (xs @ ys) \<Longrightarrow> no_triple_newline xs"
  by (induction xs rule: no_triple_newline.induct) auto


lemma hd_sub_hspace: "ys \<noteq> [] \<Longrightarrow> \<not> hspace (hd ys) \<Longrightarrow> hd (sub_hspace ys) = hd ys"
  by (cases ys) auto

lemma set_sub_hspace: "set (sub_hspace xs) \<subseteq> insert 32 (set xs)"
proof (induction xs rule: sub_hspace.induct)
  case (2 c cs)
  have "set (dropWhile hspace cs) \<subseteq> set cs" by (simp add: set_dropWhileD subsetI)
  with 2 show ?case by auto
qed simp

lemma no_tab_sub_hspace: "9 \<notin> set (sub_hspace xs)"
proof (induction xs rule: sub_hspace.induct)
  case (2 c cs)
  then show ?case by (auto simp: hspace_def)
qed simp

lemma nds_sub_hspace: "no_double_space (sub_hspace xs)"
proof (induction xs rule: sub_hspace.induct)
  case (2 c cs)
  show ?case
  proof (cases "hspace c")
    case True
    let ?r = "dropWhile hspace cs"
    have "?r = [] \<or> \<not> hspace (hd ?r)" using hd_dropWhile[of hspace cs] by blast
    then have "sub_hspace ?r = [] \<or> hd (sub_hspace ?r) \<noteq> 32"
    proof
      assume "?r = []"
      then have "sub_hspace ?r = []" by (simp only: sub_hspace.simps)
      then show ?thesis by blast
    next
      assume n: "\<not> hspace (hd ?r)"
      show ?thesis
      proof (cases "?r = []")
        case True
        then have "sub_hspace ?r = []" by (simp only: sub_hspace.simps)
        then show ?thesis by blast
      next
        case False
        from hd_sub_hspace[OF False n] n show ?thesis by (simp add: hspace_def)
      qed
    qed
    then show ?thesis using True 2 by (simp add: nds_Cons)
  next
    case False
    then have "c \<noteq> 32" by (simp add: hspace_def)
    then show ?thesis using False 2 by (simp add: nds_Cons)
  qed
qed simp

lemma sub_hspace_fixed: "9 \<notin> set xs \<Longrightarrow> no_double_space xs \<Longrightarrow> sub_hspace xs = xs"
proof (induction xs rule: sub_hspace.induct)
  case (2 c cs)
  show ?case
  proof (cases "hspace c")
    case True
    then have c: "c = 32" using 2(3) by (auto simp: hspace_def)
    have "cs = [] \<or> \<not> hspace (hd cs)"
    proof (cases cs)
      case (Cons d ds)
      then have "d \<noteq> 32" "d \<noteq> 9" using 2(3,4) c by auto
      then show ?thesis using Cons by (simp add: hspace_def)
    qed simp
    then have d: "dropWhile hspace cs = cs" by (cases cs) auto
    have "sub_hspace cs = cs" using 2(1)[OF True] 2(3,4) d by (simp add: nds_Cons)
    then show ?thesis using True c d by simp
  next
    case False
    then show ?thesis using 2 by (simp add: nds_Cons)
  qed
qed simp

lemma sub_newlines_Nil: "sub_newlines ys = [] \<longleftrightarrow> ys = []"
  by (cases ys) (auto simp: Let_def)

lemma hd_sub_newlines: "hd (sub_newlines ys) = hd ys"
  by (cases ys) (auto simp: Let_def)

lemma sub_newlines_nl:
  "sub_newlines (10 # cs) =
     (if 2 \<le> length (takeWhile (\<lambda>x. x = 10) cs) then [10, 10]
      else 10 # takeWhile (\<lambda>x. x = 10) cs) @ sub_newlines (dropWhile (\<lambda>x. x = 10) cs)"
  by (simp add: Let_def)

lemma sub_newlines_other: "c \<noteq> 10 \<Longrightarrow> sub_newlines (c # cs) = c # sub_newlines cs"
  by simp

lemma set_sub_newlines: "set (sub_newlines xs) \<subseteq> set xs"
proof (induction xs rule: sub_newlines.induct)
  case (2 c cs)
  let ?run = "takeWhile (\<lambda>x. x = 10) cs" and ?rest = "dropWhile (\<lambda>x. x = 10) cs"
  show ?case
  proof (cases "c = 10")
    case True
    have a: "set ?rest \<subseteq> set cs" by (meson set_dropWhileD subsetI)
    have b: "set ?run \<subseteq> set cs" by (meson set_takeWhileD subsetI)
    have ih: "set (sub_newlines ?rest) \<subseteq> set ?rest" using 2(1)[OF True refl refl] .
    have "set (if 2 \<le> length ?run then [10, 10] else 10 # ?run) \<subseteq> insert 10 (set ?run)"
      by (simp add: subset_insertI)
    then have "set (sub_newlines (10 # cs)) \<subseteq> insert 10 (set cs)"
      using a b ih unfolding sub_newlines_nl set_append by blast
    then show ?thesis using True by simp
  next
    case False
    have "set (sub_newlines cs) \<subseteq> set cs" using 2(2)[OF False] .
    then show ?thesis unfolding sub_newlines_other[OF False] by auto
  qed
qed simp

lemma nds_skip: "a \<noteq> 32 \<Longrightarrow> no_double_space (a # ys) = no_double_space ys"
  by (cases ys) simp_all

lemma nds_newlines_append:
  "\<forall>x\<in>set xs. x = 10 \<Longrightarrow> no_double_space (xs @ ys) = no_double_space ys"
proof (induction xs)
  case (Cons a xs)
  then have "a \<noteq> 32" by simp
  then have "no_double_space ((a # xs) @ ys) = no_double_space (xs @ ys)"
    using nds_skip[of a "xs @ ys"] by simp
  then show ?case using Cons by simp
qed simp

lemma nds_sub_newlines: "no_double_space xs \<Longrightarrow> no_double_space (sub_newlines xs)"
proof (induction xs rule: sub_newlines.induct)
  case (2 c cs)
  let ?run = "takeWhile (\<lambda>x. x = 10) cs" and ?rest = "dropWhile (\<lambda>x. x = 10) cs"
  show ?case
  proof (cases "c = 10")
    case True
    have "no_double_space (?run @ ?rest)" using 2(3) by (simp add: nds_Cons)
    then have "no_double_space ?rest" by (rule nds_suffix)
    then have ih: "no_double_space (sub_newlines ?rest)" using 2(1)[OF True refl refl] by simp
    have all: "\<forall>x\<in>set (10 # ?run). x = 10" by (auto dest: set_takeWhileD)
    have "no_double_space ((10 # ?run) @ sub_newlines ?rest)"
      using nds_newlines_append[OF all] ih by blast
    moreover have "no_double_space ([10, 10] @ sub_newlines ?rest)"
      using nds_newlines_append[of "[10, 10]" "sub_newlines ?rest"] ih by simp
    ultimately show ?thesis unfolding True sub_newlines_nl
      by (cases "2 \<le> length ?run") (simp_all only: if_True if_False)
  next
    case False
    have "no_double_space cs" using 2(3) by (simp add: nds_Cons)
    then have "no_double_space (sub_newlines cs)" using 2(2)[OF False] by simp
    moreover have "cs = [] \<or> \<not> (c = 32 \<and> hd cs = 32)" using 2(3) by (simp add: nds_Cons)
    ultimately show ?thesis unfolding sub_newlines_other[OF False]
      by (simp add: nds_Cons hd_sub_newlines sub_newlines_Nil del: sub_newlines.simps)
  qed
qed simp


lemma ntn_skip: "c \<noteq> 10 \<Longrightarrow> no_triple_newline (c # ys) = no_triple_newline ys"
proof (cases ys)
  case (Cons a as)
  assume "c \<noteq> 10"
  then show ?thesis using Cons by (cases as) simp_all
qed simp

lemma ntn_one: "ys = [] \<or> hd ys \<noteq> 10 \<Longrightarrow> no_triple_newline (a # ys) = no_triple_newline ys"
proof (cases ys)
  case (Cons b bs)
  assume "ys = [] \<or> hd ys \<noteq> 10"
  then have "b \<noteq> 10" using Cons by simp
  then show ?thesis using Cons by (cases bs) simp_all
qed simp

lemma ntn_two:
  "ys = [] \<or> hd ys \<noteq> 10 \<Longrightarrow> no_triple_newline (a # b # ys) = no_triple_newline ys"
proof (cases ys)
  case (Cons c cs)
  assume h: "ys = [] \<or> hd ys \<noteq> 10"
  then have "c \<noteq> 10" using Cons by simp
  then have "no_triple_newline (a # b # c # cs) = no_triple_newline (b # c # cs)" by simp
  then show ?thesis using ntn_one[OF h, of b] Cons by simp
qed simp

lemma ntn_sub_newlines: "no_triple_newline (sub_newlines xs)"
proof (induction xs rule: sub_newlines.induct)
  case (2 c cs)
  let ?run = "takeWhile (\<lambda>x. x = 10) cs" and ?rest = "dropWhile (\<lambda>x. x = 10) cs"
  show ?case
  proof (cases "c = 10")
    case True
    let ?R = "sub_newlines ?rest"
    have ih: "no_triple_newline ?R" using 2(1)[OF True refl refl] .
    have "?rest = [] \<or> hd ?rest \<noteq> 10" using hd_dropWhile[of "\<lambda>x. x = 10" cs] by blast
    then have R: "?R = [] \<or> hd ?R \<noteq> 10"
      by (simp only: sub_newlines_Nil hd_sub_newlines)
    show ?thesis
    proof (cases "2 \<le> length ?run")
      case l: True
      have "no_triple_newline ([10, 10] @ ?R)" using ntn_two[OF R] ih by simp
      then show ?thesis unfolding True sub_newlines_nl using l by (simp only: if_True)
    next
      case l: False
      have "?run = [] \<or> (\<exists>a. ?run = [a])" using l
        by (cases ?run) (auto simp: not_le less_Suc_eq_0_disj)
      then have "no_triple_newline ((10 # ?run) @ ?R)"
        using ntn_one[OF R] ntn_two[OF R] ih by auto
      then show ?thesis unfolding True sub_newlines_nl using l by (simp only: if_False)
    qed
  next
    case False
    have "no_triple_newline (sub_newlines cs)" using 2(2)[OF False] .
    then show ?thesis unfolding sub_newlines_other[OF False] by (simp only: ntn_skip[OF False])
  qed
qed simp

lemma long_run:
  "2 \<le> length (takeWhile (\<lambda>x. x = 10) (cs::pystr)) \<Longrightarrow> \<exists>cs'. cs = 10 # 10 # cs'"
proof (cases cs)
  case (Cons a as)
  assume h: "2 \<le> length (takeWhile (\<lambda>x. x = 10) cs)"
  then have a: "a = (10::nat)" using Cons by (auto split: if_splits)
  then have "1 \<le> length (takeWhile (\<lambda>x. x = 10) as)" using h Cons by simp
  then obtain b bs where as: "as = b # bs" by (cases as) auto
  then have "b = 10" using \<open>1 \<le> length (takeWhile (\<lambda>x. x = 10) as)\<close> by (auto split: if_splits)
  then show ?thesis using a as Cons by simp
qed simp

lemma sub_newlines_fixed: "no_triple_newline xs \<Longrightarrow> sub_newlines xs = xs"
proof (induction xs rule: sub_newlines.induct)
  case (2 c cs)
  let ?run = "takeWhile (\<lambda>x. x = 10) cs" and ?rest = "dropWhile (\<lambda>x. x = 10) cs"
  show ?case
  proof (cases "c = 10")
    case True
    have short: "\<not> 2 \<le> length ?run"
    proof
      assume "2 \<le> length ?run"
      then obtain cs' where "cs = 10 # 10 # cs'" using long_run by blast
      then show False using 2(3) True by simp
    qed
    have "no_triple_newline ((10 # ?run) @ ?rest)" using 2(3) True by simp
    then have "no_triple_newline ?rest" by (rule ntn_suffix)
    then have "sub_newlines ?rest = ?rest" using 2(1)[OF True refl refl] by blast
    then have "sub_newlines (10 # cs) = (10 # ?run) @ ?rest"
      unfolding sub_newlines_nl using short by (simp only: if_False)
    then show ?thesis using True by simp
  next
    case False
    have "no_triple_newline cs" using 2(3) by (simp only: ntn_skip[OF False])
    then have "sub_newlines cs = cs" using 2(2)[OF False] by blast
    then show ?thesis unfolding sub_newlines_other[OF False] by simp
  qed
qed simp

subsection \<open>Trimming\<close>

lemma rstrip_decomp:
  "w = rev (dropWhile P (rev w)) @ rev (takeWhile P (rev w))"
proof -
  have "rev (takeWhile P (rev w) @ dropWhile P (rev w)) = rev (rev w)"
    by (simp only: takeWhile_dropWhile_id)
  then show ?thesis by (simp only: rev_append rev_rev_ident)
qed

lemma strip_decomp: "\<exists>p q. xs = p @ strip xs @ q"
proof -
  let ?w = "dropWhile isspace xs"
  have "?w = strip xs @ rev (takeWhile isspace (rev ?w))"
    unfolding strip_def by (rule rstrip_decomp)
  moreover have "xs = takeWhile isspace xs @ ?w" by simp
  ultimately show ?thesis by metis
qed

lemma strip_ends:
  "strip xs = [] \<or> (\<not> isspace (hd (strip xs)) \<and> \<not> isspace (last (strip xs)))"
proof (cases "strip xs = []")
  case False
  let ?w = "dropWhile isspace xs"
  let ?v = "dropWhile isspace (rev ?w)"
  have v: "?v \<noteq> []" using False unfolding strip_def rev_is_Nil_conv .
  then have "\<not> isspace (hd ?v)" by (rule hd_dropWhile)
  moreover have "last (strip xs) = hd ?v" using v unfolding strip_def by (simp only: last_rev)
  ultimately have l: "\<not> isspace (last (strip xs))" by simp
  have w: "?w \<noteq> []"
  proof
    assume "?w = []"
    then have "?v = []" by (simp only: rev.simps dropWhile.simps)
    then show False using v by blast
  qed
  then have hw: "\<not> isspace (hd ?w)" by (rule hd_dropWhile)
  have "?w = strip xs @ rev (takeWhile isspace (rev ?w))"
    unfolding strip_def by (rule rstrip_decomp)
  then have "hd ?w = hd (strip xs)" using False by (metis hd_append2)
  then show ?thesis using hw l by simp
qed simp

lemma dropWhile_hd: "xs \<noteq> [] \<Longrightarrow> \<not> P (hd xs) \<Longrightarrow> dropWhile P xs = xs"
  by (cases xs) auto

lemma strip_fixed:
  assumes "ys = [] \<or> (\<not> isspace (hd ys) \<and> \<not> isspace (last ys))"
  shows "strip ys = ys"
proof (cases "ys = []")
  case True
  then show ?thesis by (simp add: strip_def)
next
  case False
  then have h: "\<not> isspace (hd ys)" "\<not> isspace (last ys)" using assms by auto
  have a: "dropWhile isspace ys = ys" using False h(1) by (rule dropWhile_hd)
  have "hd (rev ys) = last ys" using False by (simp add: hd_rev)
  then have "\<not> isspace (hd (rev ys))" using h(2) by simp
  moreover have "rev ys \<noteq> []" using False by simp
  ultimately have "dropWhile isspace (rev ys) = rev ys" by (intro dropWhile_hd)
  then show ?thesis by (simp add: strip_def a)
qed

lemma strip_idem: "strip (strip xs) = strip xs"
  using strip_fixed[OF strip_ends] .

lemma set_strip: "set (strip xs) \<subseteq> set xs"
proof -
  obtain p q where "xs = p @ strip xs @ q" using strip_decomp by blast
  then have "set xs = set p \<union> set (strip xs) \<union> set q" by (metis set_append Un_assoc)
  then show ?thesis by blast
qed

lemma nds_strip: "no_double_space xs \<Longrightarrow> no_double_space (strip xs)"
proof -
  assume a: "no_double_space xs"
  obtain p q where "xs = p @ strip xs @ q" using strip_decomp by blast
  then have "no_double_space (p @ strip xs @ q)" using a by simp
  then have "no_double_space (strip xs @ q)" by (rule nds_suffix)
  then show ?thesis by (rule nds_prefix)
qed

lemma ntn_strip: "no_triple_newline xs \<Longrightarrow> no_triple_newline (strip xs)"
proof -
  assume a: "no_triple_newline xs"
  obtain p q where "xs = p @ strip xs @ q" using strip_decomp by blast
  then have "no_triple_newline (p @ strip xs @ q)" using a by simp
  then have "no_triple_newline (strip xs @ q)" by (rule ntn_suffix)
  then show ?thesis by (rule ntn_prefix)
qed

lemma clean_text_normal:
  "13 \<notin> set (clean_text s)" "9 \<notin> set (clean_text s)"
  "no_double_space (clean_text s)" "no_triple_newline (clean_text s)"
proof -
  let ?r = "replace_cr s"
  let ?h = "sub_hspace ?r"
  let ?z = "sub_newlines ?h"
  have "13 \<notin> set ?r" by (auto simp: replace_cr_def)
  then have "13 \<notin> set ?h" using set_sub_hspace[of ?r] by auto
  then have "13 \<notin> set ?z" using set_sub_newlines[of ?h] by auto
  then show "13 \<notin> set (clean_text s)" using set_strip[of ?z] by (auto simp: clean_text_def)
  have "9 \<notin> set ?z" using set_sub_newlines[of ?h] no_tab_sub_hspace[of ?r] by auto
  then show "9 \<notin> set (clean_text s)" using set_strip[of ?z] by (auto simp: clean_text_def)
  show "no_double_space (clean_text s)"
    unfolding clean_text_def by (intro nds_strip nds_sub_newlines nds_sub_hspace)
  show "no_triple_newline (clean_text s)"
    unfolding clean_text_def by (intro ntn_strip ntn_sub_newlines)
qed

subsection \<open>Claim about the normalizer\<close>

text \<open>
  C8. \<open>clean_text\<close> is idempotent: cleaning a cleaned text changes nothing.
\<close>

theorem clean_text_idempotent: "clean_text (clean_text T) = clean_text T"
proof -
  let ?y = "clean_text T"
  have "replace_cr ?y = ?y"
    using clean_text_normal(1)[of T] by (auto simp: replace_cr_def intro: map_idI)
  moreover have "sub_hspace ?y = ?y"
    using clean_text_normal(2,3) by (rule sub_hspace_fixed)
  moreover have "sub_newlines ?y = ?y"
    using clean_text_normal(4) by (rule sub_newlines_fixed)
  moreover have "strip ?y = ?y"
    using strip_idem[of "sub_newlines (sub_hspace (replace_cr T))"] by (simp add: clean_text_def)
  ultimately show ?thesis by (simp add: clean_text_def[of ?y])
qed

section \<open>Properties of the extractor\<close>

subsection \<open>The double-precision product\<close>

lemma bit_length_bounds: "0 < n \<Longrightarrow> 2 ^ (bit_length n - 1) \<le> n \<and> n < 2 ^ bit_length n"
proof (induction n rule: bit_length.induct)
  case (1 n)
  show ?case
  proof (cases "n div 2 = 0")
    case True
    then have n1: "n = Suc 0" using 1(2) by (auto simp: div_eq_0_iff)
    have "bit_length 0 = 0" by (subst bit_length.simps) simp
    then have "bit_length (Suc 0) = Suc 0" by (subst bit_length.simps) simp
    then show ?thesis using n1 by simp
  next
    case False
    then have pos: "0 < n div 2" by simp
    from 1(1)[OF _ pos] 1(2)
    have ih: "2 ^ (bit_length (n div 2) - 1) \<le> n div 2" "n div 2 < 2 ^ bit_length (n div 2)"
      by auto
    have bl: "bit_length n = Suc (bit_length (n div 2))" using 1(2) by (subst bit_length.simps) simp
    have "0 < bit_length (n div 2)" using pos by (subst bit_length.simps) simp
    then have e: "(2::nat) ^ (bit_length n - 1) = 2 * 2 ^ (bit_length (n div 2) - 1)"
      unfolding bl by (cases "bit_length (n div 2)") simp_all
    have "2 * 2 ^ (bit_length (n div 2) - 1) \<le> n" using ih(1) by linarith
    moreover have "n < 2 * 2 ^ bit_length (n div 2)" using ih(2) by linarith
    ultimately show ?thesis unfolding e unfolding bl by simp
  qed
qed

lemma bit_length_le: "n < 2 ^ k \<Longrightarrow> bit_length n \<le> k"
proof (rule ccontr)
  assume n: "n < 2 ^ k" and "\<not> bit_length n \<le> k"
  then have k: "k \<le> bit_length n - 1" by simp
  then have "0 < n" using \<open>\<not> bit_length n \<le> k\<close> by (cases "n = 0") (auto simp: bit_length.simps)
  then have "2 ^ (bit_length n - 1) \<le> n" using bit_length_bounds by blast
  moreover have "(2::nat) ^ k \<le> 2 ^ (bit_length n - 1)" using k by (rule power_increasing) simp
  ultimately show False using n by linarith
qed

lemma bit_length_ge: "2 ^ k \<le> n \<Longrightarrow> k < bit_length n"
proof (rule ccontr)
  assume n: "2 ^ k \<le> n" and "\<not> k < bit_length n"
  then have k: "bit_length n \<le> k" by simp
  have "0 < n" using n by (cases "n = 0") auto
  then have "n < 2 ^ bit_length n" using bit_length_bounds by blast
  moreover have "(2::nat) ^ bit_length n \<le> 2 ^ k" using k by (rule power_increasing) simp
  ultimately show False using n by linarith
qed

lemma round_to_53_exact: "n < 2 ^ 53 \<Longrightarrow> round_to_53 n = n"
proof -
  assume "n < 2 ^ 53"
  then have "bit_length n - 53 = 0" using bit_length_le[of n 53] by simp
  then show ?thesis by (simp add: round_to_53_def)
qed

lemma round_to_53_near:
  assumes "s = bit_length m - 53"
  shows "2 ^ s dvd round_to_53 m" "2 * round_to_53 m \<le> 2 * m + 2 ^ s"
    "2 * m \<le> 2 * round_to_53 m + 2 ^ s"
proof -
  define q where "q = m div 2 ^ s"
  define r where "r = m mod 2 ^ s"
  have m: "m = q * 2 ^ s + r" unfolding q_def r_def by (rule div_mult_mod_eq[symmetric])
  have r: "r < 2 ^ s" by (simp add: r_def)
  define up where "up \<longleftrightarrow> 2 ^ s < 2 * r \<or> (2 * r = 2 ^ s \<and> odd q)"
  define R where "R = (if up then q + 1 else q) * 2 ^ s"
  have R: "round_to_53 m = R"
    by (simp add: round_to_53_def Let_def assms[symmetric] q_def r_def up_def R_def)
  have up: "up \<Longrightarrow> 2 ^ s \<le> 2 * r" and down: "\<not> up \<Longrightarrow> 2 * r \<le> 2 ^ s"
    by (auto simp: up_def)
  have RR: "R = (if up then q * 2 ^ s + 2 ^ s else q * 2 ^ s)"
    by (simp add: R_def algebra_simps)
  show "2 ^ s dvd round_to_53 m" unfolding R R_def by simp
  show "2 * round_to_53 m \<le> 2 * m + 2 ^ s"
    unfolding R using up down r m RR by (cases up) simp_all
  show "2 * m \<le> 2 * round_to_53 m + 2 ^ s"
    unfolding R using up down r m RR by (cases up) simp_all
qed

lemma round_to_53_unique:
  assumes s: "s = bit_length m - 53" and K: "2 ^ s dvd K"
    and lo: "2 * K < 2 * m + 2 ^ s" and hi: "2 * m < 2 * K + 2 ^ s"
  shows "round_to_53 m = K"
proof -
  let ?R = "round_to_53 m"
  from round_to_53_near[OF s] have R: "2 ^ s dvd ?R" "2 * ?R \<le> 2 * m + 2 ^ s" "2 * m \<le> 2 * ?R + 2 ^ s"
    by auto
  obtain a where a: "?R = 2 ^ s * a" using R(1) by (auto simp: dvd_def)
  obtain b where b: "K = 2 ^ s * b" using K by (auto simp: dvd_def)
  have p: "(0::nat) < 2 ^ s" by simp
  have "?R < K + 2 ^ s" using R(2) hi by linarith
  then have "2 ^ s * a < 2 ^ s * (b + 1)" unfolding a b by (simp add: algebra_simps)
  then have 1: "a < b + 1" using p by (simp only: mult_less_cancel1)
  have "K < ?R + 2 ^ s" using R(3) lo by linarith
  then have "2 ^ s * b < 2 ^ s * (a + 1)" unfolding a b by (simp add: algebra_simps)
  then have 2: "b < a + 1" using p by (simp only: mult_less_cancel1)
  from 1 2 have "a = b" by simp
  then show ?thesis using a b by simp
qed


lemma int_three_tenths_floor:
  assumes n: "n < 2 ^ 50"
  shows "int_three_tenths n = 3 * n div 10"
proof (cases "n = 0")
  case True
  have "round_to_53 0 = 0" using round_to_53_exact[of 0] by simp
  then show ?thesis using True by (simp add: int_three_tenths_def)
next
  case False
  then have pos: "0 < n" by simp
  define c :: nat where "c = 5404319552844595"
  define m where "m = c * n"
  define s where "s = bit_length m - 53"
  define b where "b = bit_length n"
  define k where "k = 3 * n div 10"
  define t where "t = 3 * n mod 10"
  define R where "R = round_to_53 m"
  have P: "(2::nat) ^ 54 = 18014398509481984" "(2::nat) ^ 50 = 1125899906842624"
      "(2::nat) ^ 52 = 4503599627370496" "(2::nat) ^ 53 = 9007199254740992"
    by simp_all
  have n53: "n < 2 ^ 53" using n unfolding P by linarith
  have I: "int_three_tenths n = R div 2 ^ 54"
    by (simp add: int_three_tenths_def round_to_53_exact[OF n53] R_def m_def c_def)
  have kt: "3 * n = 10 * k + t" "t < 10" by (simp_all add: k_def t_def)
  have m10: "10 * m + 2 * n = 3 * n * 2 ^ 54"
    unfolding m_def c_def P by simp
  have m10': "10 * m + 2 * n = 10 * (k * 2 ^ 54) + t * 2 ^ 54"
    unfolding m10 kt(1) by (simp add: algebra_simps)
  have b: "2 ^ (b - 1) \<le> n" "n < 2 ^ b" using bit_length_bounds[OF pos] by (auto simp: b_def)
  have b0: "0 < b" using b(2) pos by (cases b) auto
  have b50: "b \<le> 50" unfolding b_def using n by (rule bit_length_le)
  have pw: "(2::nat) ^ b = 2 * 2 ^ (b - 1)" using b0 by (cases b) simp_all
  have "2 ^ (52 + (b - 1)) \<le> m"
  proof -
    have "(2::nat) ^ 52 * 2 ^ (b - 1) \<le> c * n"
      by (rule mult_le_mono) (use b(1) in \<open>simp_all add: c_def\<close>)
    then show ?thesis by (simp add: power_add m_def)
  qed
  then have "52 + (b - 1) < bit_length m" by (rule bit_length_ge)
  then have s_lo: "b - 1 \<le> s" unfolding s_def by simp
  have "m < 2 ^ (53 + b)"
  proof -
    have "c * n < 2 ^ 53 * 2 ^ b"
      by (rule mult_strict_mono) (use b(2) in \<open>simp_all add: c_def\<close>)
    then show ?thesis by (simp add: power_add m_def)
  qed
  then have "bit_length m \<le> 53 + b" by (rule bit_length_le)
  then have s_hi: "s \<le> b" unfolding s_def by simp
  have ps_hi: "(2::nat) ^ s \<le> 2 * n"
  proof -
    have "(2::nat) ^ s \<le> 2 ^ b" using s_hi by (rule power_increasing) simp
    then show ?thesis using b(1) pw by linarith
  qed
  have ps_lo: "n < 2 * 2 ^ s"
  proof -
    have "(2::nat) ^ (b - 1) \<le> 2 ^ s" using s_lo by (rule power_increasing) simp
    then show ?thesis using b(2) pw by linarith
  qed
  from round_to_53_near[OF s_def]
  have near: "2 ^ s dvd R" "2 * R \<le> 2 * m + 2 ^ s" "2 * m \<le> 2 * R + 2 ^ s"
    by (auto simp: R_def)
  have n': "n < 1125899906842624" using n unfolding P .
  have upper: "R < (k + 1) * 2 ^ 54"
  proof -
    have "20 * R \<le> 20 * m + 20 * n" using near(2) ps_hi by linarith
    also have "\<dots> = 2 * (10 * m + 2 * n) + 16 * n" by simp
    also have "\<dots> = 20 * (k * 2 ^ 54) + 2 * t * 2 ^ 54 + 16 * n" unfolding m10' by simp
    also have "\<dots> \<le> 20 * (k * 2 ^ 54) + 18 * 2 ^ 54 + 16 * n" using kt(2) by simp
    also have "\<dots> < 20 * (k * 2 ^ 54) + 20 * 2 ^ 54" using n' unfolding P by linarith
    finally show ?thesis by (simp add: algebra_simps)
  qed
  have lower: "k * 2 ^ 54 \<le> R"
  proof (cases "t = 0")
    case False
    then have t1: "1 \<le> t" by simp
    have "20 * (k * 2 ^ 54) + 2 * 2 ^ 54 \<le> 20 * (k * 2 ^ 54) + 2 * t * 2 ^ 54" using t1 by simp
    also have "\<dots> = 20 * m + 4 * n" using m10' by simp
    finally have "20 * (k * 2 ^ 54) + 2 * 2 ^ 54 \<le> 20 * m + 4 * n" .
    moreover have "20 * m \<le> 20 * R + 20 * n" using near(3) ps_hi by linarith
    ultimately have "20 * (k * 2 ^ 54) + 2 * 2 ^ 54 \<le> 20 * R + 24 * n" by linarith
    then have "20 * (k * 2 ^ 54) \<le> 20 * R" using n' unfolding P by linarith
    then show ?thesis by simp
  next
    case True
    then have e: "10 * m + 2 * n = 10 * (k * 2 ^ 54)" using m10' by simp
    have "2 ^ s dvd (2::nat) ^ 54" using s_hi b50 by (intro le_imp_power_dvd) simp
    then have d: "2 ^ s dvd k * 2 ^ 54" by simp
    have lo: "2 * (k * 2 ^ 54) < 2 * m + 2 ^ s"
      using e ps_lo pos by linarith
    have hi: "2 * m < 2 * (k * 2 ^ 54) + 2 ^ s"
      using e pos by linarith
    have "R = k * 2 ^ 54" unfolding R_def using s_def d lo hi by (rule round_to_53_unique)
    then show ?thesis by simp
  qed
  have "R div 2 ^ 54 = k"
  proof -
    have "k \<le> R div 2 ^ 54" using lower by (simp add: less_eq_div_iff_mult_less_eq)
    moreover have "R div 2 ^ 54 < k + 1" using upper by (simp add: div_less_iff_less_mult)
    ultimately show ?thesis by simp
  qed
  then show ?thesis using I by (simp add: k_def)
qed

subsection \<open>The two tiers\<close>

lemma strip_letters: "strip (letters n) = letters n"
  unfolding letters_def by (rule strip_replicate) (simp add: isspace_def)

lemma count_non_empty_alt:
  "count_non_empty pages = length (filter (\<lambda>t. 30 < length (strip t)) pages)"
proof -
  have "(t \<noteq> [] \<and> 30 < length (strip t)) = (30 < length (strip t))" for t
    by (cases "t = []") (auto simp: strip_def)
  then show ?thesis by (simp add: count_non_empty_def)
qed

lemma count_non_empty_pos: "1 \<le> count_non_empty pages \<Longrightarrow> pages \<noteq> []"
  by (auto simp: count_non_empty_def)

lemma extract_pdf_text_tier1:
  "max 1 (int_three_tenths (length (extract_pdf_pypdf path))) \<le> count_non_empty (extract_pdf_pypdf path)
   \<Longrightarrow> extract_pdf_text path = (extract_pdf_pypdf path, False)"
  using count_non_empty_pos[of "extract_pdf_pypdf path"]
  by (simp add: extract_pdf_text_def Let_def)

lemma extract_pdf_text_fallback:
  assumes "count_non_empty (extract_pdf_pypdf path)
             < max 1 (int_three_tenths (length (extract_pdf_pypdf path)))"
  shows "extract_pdf_text path =
         (if extract_pdf_pdfminer path \<noteq> [] \<and> 1 \<le> count_non_empty (extract_pdf_pdfminer path)
          then (extract_pdf_pdfminer path, False) else ([], True))"
proof -
  have n: "\<not> (extract_pdf_pypdf path \<noteq> []
              \<and> max 1 (int_three_tenths (length (extract_pdf_pypdf path)))
                  \<le> count_non_empty (extract_pdf_pypdf path))"
    using assms by linarith
  show ?thesis unfolding extract_pdf_text_def Let_def by (simp only: n if_False)
qed

lemma count_ex4: "count_non_empty [letters 31, [], [], []] = 1"
  by (simp add: count_non_empty_def strip_letters) (simp add: letters_def strip_def)

lemma three_tenths_4: "int_three_tenths (length [a, b, c, d]) = 1"
proof -
  have "length [a, b, c, d] = 4" by simp
  moreover have "int_three_tenths 4 = 1" using int_three_tenths_floor[of 4] by simp
  ultimately show ?thesis by (simp only:)
qed

subsection \<open>Claim about the tier-1 threshold\<close>

text \<open>
  C5, as the code has it. \<open>extract_pdf_text\<close> accepts the pypdf pages exactly when
  \<open>non_empty \<ge> max(1, int(0.3 * total_pages))\<close>, where \<open>int\<close> drops the fraction of
  the double-precision product; otherwise it goes on to the pdfminer fallback. For every
  page count below \<open>2^50\<close> the truncated product is \<open>\<lfloor>3 * total_pages / 10\<rfloor>\<close>. A page
  counts as non-empty when its stripped text has more than 30 characters.
\<close>

theorem tier1_acceptance:
  "((max 1 (int_three_tenths (length (extract_pdf_pypdf path)))
        \<le> count_non_empty (extract_pdf_pypdf path)
      \<longrightarrow> extract_pdf_text path = (extract_pdf_pypdf path, False))
    \<and> (count_non_empty (extract_pdf_pypdf path)
        < max 1 (int_three_tenths (length (extract_pdf_pypdf path)))
      \<longrightarrow> extract_pdf_text path =
           (if extract_pdf_pdfminer path \<noteq> []
               \<and> 1 \<le> count_non_empty (extract_pdf_pdfminer path)
            then (extract_pdf_pdfminer path, False) else ([], True))))
   \<and> (n < 2 ^ 50 \<longrightarrow> int_three_tenths n = 3 * n div 10)
   \<and> count_non_empty pages = length (filter (\<lambda>t. 30 < length (strip t)) pages)"
  using extract_pdf_text_tier1[of path] extract_pdf_text_fallback[of path]
    int_three_tenths_floor[of n] count_non_empty_alt[of pages]
  by blast

theorem tier1_acceptance_witness:
  "max 1 (int_three_tenths (length (extract_pdf_pypdf
        (raw_path (ustr ''r001'') (ustr ''.pdf'') None (Some [letters 31, [], [], []]) None))))
     \<le> count_non_empty (extract_pdf_pypdf
        (raw_path (ustr ''r001'') (ustr ''.pdf'') None (Some [letters 31, [], [], []]) None))
   \<and> extract_pdf_text
        (raw_path (ustr ''r001'') (ustr ''.pdf'') None (Some [letters 31, [], [], []]) None)
      = ([letters 31, [], [], []], False)
   \<and> count_non_empty (extract_pdf_pypdf
        (raw_path (ustr ''r002'') (ustr ''.pdf'') None (Some [[], [], [], []]) None))
     < max 1 (int_three_tenths (length (extract_pdf_pypdf
        (raw_path (ustr ''r002'') (ustr ''.pdf'') None (Some [[], [], [], []]) None))))
   \<and> extract_pdf_text
        (raw_path (ustr ''r002'') (ustr ''.pdf'') None (Some [[], [], [], []]) None)
      = ([], True)
   \<and> (10::nat) < 2 ^ 50 \<and> int_three_tenths 10 = 3"
proof -
  let ?f = "raw_path (ustr ''r001'') (ustr ''.pdf'') None (Some [letters 31, [], [], []]) None"
  let ?g = "raw_path (ustr ''r002'') (ustr ''.pdf'') None (Some [[], [], [], []]) None"
  have p: "extract_pdf_pypdf ?f = [letters 31, [], [], []]"
    by (simp add: extract_pdf_pypdf_def raw_path_def)
  have q: "extract_pdf_pypdf ?g = [[], [], [], []]"
    by (simp add: extract_pdf_pypdf_def raw_path_def)
  have cq: "count_non_empty [[], [], [], []] = 0" by (simp add: count_non_empty_def)
  have m: "extract_pdf_pdfminer ?g = []"
    by (simp add: extract_pdf_pdfminer_def raw_path_def)
  have h1: "max 1 (int_three_tenths (length (extract_pdf_pypdf ?f)))
              \<le> count_non_empty (extract_pdf_pypdf ?f)"
    by (simp only: p count_ex4 three_tenths_4)
  have h2: "count_non_empty (extract_pdf_pypdf ?g)
              < max 1 (int_three_tenths (length (extract_pdf_pypdf ?g)))"
    by (simp add: q cq)
  have h3: "(10::nat) < 2 ^ 50" by simp
  from tier1_acceptance[of ?f 10 "[]"] h1 have "extract_pdf_text ?f = (extract_pdf_pypdf ?f, False)"
    by blast
  moreover from tier1_acceptance[of ?g 10 "[]"] h2 have "extract_pdf_text ?g = ([], True)"
    by (simp add: m)
  moreover from tier1_acceptance[of ?f 10 "[]"] h3 have "int_three_tenths 10 = 3"
    by simp
  ultimately show ?thesis using h1 h2 h3 by (simp add: p)
qed

text \<open>
  The claim C5 as stated fails: with four pages of which one is non-empty, the exact
  product \<open>0.3 * 4 = 1.2\<close> exceeds the count 1, yet tier 1 is accepted (the fallback,
  which finds nothing here, would have given the OCR classification).
\<close>

theorem tier1_acceptance_counterexample:
  "count_non_empty [letters 31, [], [], []] = 1
   \<and> \<not> max 1 (0.3 * real (length [letters 31, [], [], []]))
         \<le> real (count_non_empty [letters 31, [], [], []])
   \<and> extract_pdf_pdfminer
         (raw_path (ustr ''r001'') (ustr ''.pdf'') None (Some [letters 31, [], [], []]) None) = []
   \<and> extract_pdf_text
         (raw_path (ustr ''r001'') (ustr ''.pdf'') None (Some [letters 31, [], [], []]) None)
       = ([letters 31, [], [], []], False)"
proof -
  let ?f = "raw_path (ustr ''r001'') (ustr ''.pdf'') None (Some [letters 31, [], [], []]) None"
  have p: "extract_pdf_pypdf ?f = [letters 31, [], [], []]"
    by (simp add: extract_pdf_pypdf_def raw_path_def)
  have "extract_pdf_text ?f = (extract_pdf_pypdf ?f, False)"
    by (rule extract_pdf_text_tier1) (simp only: p count_ex4 three_tenths_4)
  moreover have "extract_pdf_pdfminer ?f = []"
    by (simp add: extract_pdf_pdfminer_def raw_path_def)
  ultimately show ?thesis by (simp add: p count_ex4)
qed

section \<open>Properties of the chunk records\<close>

subsection \<open>Chunking a page\<close>

lemma chunk_text_window_lengths:
  assumes "ov < sz" and "sz < length (strip T)"
  shows "\<exists>cs. chunk_text T (int sz) (int ov) = Some cs \<and> cs \<noteq> [] \<and> (\<forall>c\<in>set cs. ov < length c)"
proof -
  let ?t = "strip T" and ?d = "sz - ov"
  from chunk_text_windows[OF assms]
  obtain k where k: "2 \<le> k"
      "chunk_text T (int sz) (int ov) = Some (map (\<lambda>i. take sz (drop (i * ?d) ?t)) [0..<k])"
      "(k - 2) * ?d + sz < length ?t"
    by blast
  have "ov < length (take sz (drop (i * ?d) ?t))" if "i < k" for i
  proof -
    have "i \<le> k - 1" using that by simp
    then have "i * ?d \<le> (k - 1) * ?d" by (rule mult_le_mono1)
    moreover have "(k - 1) * ?d = (k - 2) * ?d + ?d"
      using k(1) by (metis Suc_diff_Suc Suc_1 add.commute mult_Suc Suc_le_lessD)
    ultimately have "i * ?d + ov < length ?t" using k(3) assms(1) by linarith
    then show ?thesis using assms(1) by simp
  qed
  then have "\<forall>c\<in>set (map (\<lambda>i. take sz (drop (i * ?d) ?t)) [0..<k]). ov < length c"
    by auto
  moreover have "map (\<lambda>i. take sz (drop (i * ?d) ?t)) [0..<k] \<noteq> []" using k(1) by auto
  ultimately show ?thesis using k(2) by blast
qed

lemma strip_clean_text: "strip (clean_text p) = clean_text p"
  by (simp add: clean_text_def strip_idem)

lemma chunk_text_default:
  assumes "30 \<le> length (clean_text p)"
  shows "\<exists>cs. chunk_text (clean_text p) CHUNK_SIZE CHUNK_OVERLAP = Some cs \<and> cs \<noteq> []
            \<and> (\<forall>c\<in>set cs. 30 \<le> length c)"
proof (cases "length (clean_text p) \<le> 3800")
  case True
  then have "chunk_text (clean_text p) CHUNK_SIZE CHUNK_OVERLAP = Some [clean_text p]"
    by (simp add: chunk_text_def strip_clean_text CHUNK_SIZE_def)
  then show ?thesis using assms by simp
next
  case False
  then have "3800 < length (strip (clean_text p))" by (simp add: strip_clean_text)
  from chunk_text_window_lengths[of 500 3800, OF _ this]
  obtain cs where "chunk_text (clean_text p) (int 3800) (int 500) = Some cs" "cs \<noteq> []"
      "\<forall>c\<in>set cs. 500 < length c"
    by auto
  then show ?thesis by (auto simp: CHUNK_SIZE_def CHUNK_OVERLAP_def)
qed

lemma page_rows_skip:
  "length (clean_text p) < 30 \<Longrightarrow>
     page_rows row path i (p # ps) acc = page_rows row path (i + 1) ps acc"
  by (simp add: Let_def)

lemma page_rows_keep:
  "30 \<le> length (clean_text p) \<Longrightarrow>
     chunk_text (clean_text p) CHUNK_SIZE CHUNK_OVERLAP = Some cs \<Longrightarrow>
     page_rows row path i (p # ps) acc
       = page_rows row path (i + 1) ps (acc @ map (page_chunk row path i) cs)"
  by (auto simp: Let_def)

lemma page_rows_total_min:
  "\<forall>r\<in>set acc. \<not> c_needs_ocr r \<longrightarrow> 30 \<le> length (c_text r) \<Longrightarrow>
   \<exists>rows. page_rows row path i ps acc = Some rows
        \<and> (\<forall>r\<in>set rows. \<not> c_needs_ocr r \<longrightarrow> 30 \<le> length (c_text r))"
proof (induction ps arbitrary: i acc)
  case Nil
  then show ?case by simp
next
  case (Cons p ps)
  show ?case
  proof (cases "length (clean_text p) < 30")
    case True
    from Cons.IH[OF Cons.prems, of "i + 1"] show ?thesis
      by (simp only: page_rows_skip[OF True])
  next
    case False
    then have ge: "30 \<le> length (clean_text p)" by simp
    from chunk_text_default[OF ge]
    obtain cs where cs: "chunk_text (clean_text p) CHUNK_SIZE CHUNK_OVERLAP = Some cs"
        "\<forall>c\<in>set cs. 30 \<le> length c"
      by blast
    have "\<forall>r\<in>set (acc @ map (page_chunk row path i) cs).
            \<not> c_needs_ocr r \<longrightarrow> 30 \<le> length (c_text r)"
      using Cons.prems cs(2) by (auto simp: page_chunk_def)
    from Cons.IH[OF this, of "i + 1"] show ?thesis
      by (simp only: page_rows_keep[OF ge cs(1)])
  qed
qed

lemma clean_text_fixed:
  assumes "13 \<notin> set s" "9 \<notin> set s" "no_double_space s" "no_triple_newline s" "strip s = s"
  shows "clean_text s = s"
proof -
  have "replace_cr s = s" using assms(1) by (auto simp: replace_cr_def intro: map_idI)
  moreover have "sub_hspace s = s" using assms(2,3) by (rule sub_hspace_fixed)
  moreover have "sub_newlines s = s" using assms(4) by (rule sub_newlines_fixed)
  ultimately show ?thesis using assms(5) by (simp add: clean_text_def)
qed

lemma clean_text_letters: "clean_text (letters n) = letters n"
proof (rule clean_text_fixed)
  show "no_double_space (letters n)"
    unfolding letters_def by (induction n) (simp_all add: nds_skip)
  show "no_triple_newline (letters n)"
    unfolding letters_def by (induction n) (simp_all add: ntn_skip)
  show "strip (letters n) = letters n" by (rule strip_letters)
qed (simp_all add: letters_def)

lemma clean_text_Nil: "clean_text [] = []"
  by (simp add: clean_text_def replace_cr_def strip_def)

lemma length_letters: "length (letters n) = n"
  by (simp add: letters_def)

lemma chunk_text_letters: "chunk_text (letters 31) CHUNK_SIZE CHUNK_OVERLAP = Some [letters 31]"
  by (simp add: chunk_text_def strip_letters CHUNK_SIZE_def length_letters)

lemma letters_Nil: "letters n = [] \<longleftrightarrow> n = 0"
  by (simp add: letters_def)

lemmas page_eval =
  clean_text_letters clean_text_Nil length_letters letters_Nil chunk_text_letters Let_def
  numeral_2_eq_2

lemma extract_pdf_text_ocr: "snd (extract_pdf_text path) \<Longrightarrow> extract_pdf_text path = ([], True)"
  by (auto simp: extract_pdf_text_def Let_def split: if_splits)

lemma no_usable_count: "(\<forall>t\<in>set pages. length (strip t) \<le> 30) \<Longrightarrow> count_non_empty pages = 0"
  by (auto simp: count_non_empty_alt filter_empty_conv)

lemma build_chunks_ocr:
  assumes "lower (suffix path) = ustr ''.pdf''" and "extract_pdf_text path = ([], True)"
  shows "build_chunks_for_doc lower row path = Return [placeholder row path]"
  using assms by (simp add: build_chunks_for_doc_def load_page_texts_def)

lemma main_loop_resolved:
  "resolve lower files row = Some path \<Longrightarrow> build_chunks_for_doc lower row path = Return rows \<Longrightarrow>
   main_loop lower files (row # df) st
     = main_loop lower files df (st\<lparr>all_rows := all_rows st @ rows\<rparr>)"
  by simp

lemma main_loop_missing:
  "resolve lower files row = None \<Longrightarrow>
   main_loop lower files (row # df) st
     = main_loop lower files df (st\<lparr>missing := missing st @ [doc_id row]\<rparr>)"
  by simp

subsection \<open>Evaluating the examples\<close>

lemma split_ws_Nil: "split_ws [] = []"
  by (subst split_ws.simps) simp

lemma split_ws_space: "isspace c \<Longrightarrow> split_ws (c # cs) = split_ws cs"
  by (subst split_ws.simps, subst (2) split_ws.simps) (simp add: Let_def)

lemma split_ws_word:
  "\<not> isspace c \<Longrightarrow>
     split_ws (c # cs)
       = (c # takeWhile (\<lambda>x. \<not> isspace x) cs) # split_ws (dropWhile (\<lambda>x. \<not> isspace x) cs)"
  by (subst split_ws.simps) (simp add: Let_def)

lemmas example_eval =
  title_key_def ascii_lower_def ustr_def lower_alnum_def split_ws_Nil split_ws_space
  split_ws_word isspace_def example_row_def raw_path_def

lemma example_title_key:
  "title_key ascii_lower (title example_row) = ustr ''reglamento_de_convivencia''"
  by (simp add: example_eval)

subsection \<open>Claims about the chunk records\<close>

text \<open>
  C7. Every chunk record that \<open>build_chunks_for_doc\<close> returns with \<open>needs_ocr\<close> false
  has a non-empty text of at least 30 characters, and the call always returns or raises.
  A page whose normalized text has fewer than 30 characters is skipped by the page loop
  and adds no row; a page that survives is chunked, with the default size and overlap,
  into windows of at least 30 characters each.
\<close>

theorem build_chunks_min_length:
  "(build_chunks_for_doc lower row path = Return rows \<longrightarrow>
      (\<forall>r\<in>set rows. \<not> c_needs_ocr r \<longrightarrow> c_text r \<noteq> [] \<and> 30 \<le> length (c_text r)))
   \<and> build_chunks_for_doc lower row path \<noteq> Diverge
   \<and> (length (clean_text p) < 30 \<longrightarrow>
        page_rows row path i (p # ps) acc = page_rows row path (i + 1) ps acc)
   \<and> (30 \<le> length (clean_text p) \<longrightarrow>
        (\<exists>cs. chunk_text (clean_text p) CHUNK_SIZE CHUNK_OVERLAP = Some cs \<and> cs \<noteq> []
            \<and> (\<forall>c\<in>set cs. 30 \<le> length c)
            \<and> page_rows row path i (p # ps) acc
                = page_rows row path (i + 1) ps (acc @ map (page_chunk row path i) cs)))"
proof (intro conjI impI)
  have pr: "\<exists>rs. page_rows row path 1 pts [] = Some rs
        \<and> (\<forall>r\<in>set rs. \<not> c_needs_ocr r \<longrightarrow> 30 \<le> length (c_text r))" for pts
    using page_rows_total_min[of "[]" row path 1 pts] by simp
  show "build_chunks_for_doc lower row path \<noteq> Diverge"
  proof (cases "load_page_texts lower path")
    case (Inl e)
    then show ?thesis by (simp add: build_chunks_for_doc_def)
  next
    case (Inr x)
    show ?thesis
    proof (cases x)
      case None
      then show ?thesis using Inr by (simp add: build_chunks_for_doc_def)
    next
      case (Some pr')
      obtain pts ocr where "pr' = (pts, ocr)" by (cases pr')
      then show ?thesis using Inr Some pr[of pts] by (auto simp: build_chunks_for_doc_def)
    qed
  qed
  {
    assume ret: "build_chunks_for_doc lower row path = Return rows"
    have "\<forall>r\<in>set rows. \<not> c_needs_ocr r \<longrightarrow> 30 \<le> length (c_text r)"
    proof (cases "load_page_texts lower path")
      case (Inl e)
      then show ?thesis using ret by (simp add: build_chunks_for_doc_def)
    next
      case (Inr x)
      show ?thesis
      proof (cases x)
        case None
        then show ?thesis using Inr ret by (auto simp: build_chunks_for_doc_def)
      next
        case (Some pr')
        obtain pts ocr where "pr' = (pts, ocr)" by (cases pr')
        then show ?thesis using Inr Some pr[of pts] ret
          by (auto simp: build_chunks_for_doc_def placeholder_def split: if_splits)
      qed
    qed
    then show "\<forall>r\<in>set rows. \<not> c_needs_ocr r \<longrightarrow> c_text r \<noteq> [] \<and> 30 \<le> length (c_text r)"
      by auto
  }
  {
    assume "length (clean_text p) < 30"
    then show "page_rows row path i (p # ps) acc = page_rows row path (i + 1) ps acc"
      by (rule page_rows_skip)
  }
  {
    assume ge: "30 \<le> length (clean_text p)"
    from chunk_text_default[OF ge]
    obtain cs where cs: "chunk_text (clean_text p) CHUNK_SIZE CHUNK_OVERLAP = Some cs" "cs \<noteq> []"
        "\<forall>c\<in>set cs. 30 \<le> length c"
      by blast
    then show "\<exists>cs. chunk_text (clean_text p) CHUNK_SIZE CHUNK_OVERLAP = Some cs \<and> cs \<noteq> []
            \<and> (\<forall>c\<in>set cs. 30 \<le> length c)
            \<and> page_rows row path i (p # ps) acc
                = page_rows row path (i + 1) ps (acc @ map (page_chunk row path i) cs)"
      using page_rows_keep[OF ge cs(1)] by blast
  }
qed

theorem build_chunks_min_length_witness:
  "build_chunks_for_doc ascii_lower example_row
     (raw_path (ustr ''r001'') (ustr ''.TXT'') (Some (letters 31)) None None)
   = Return [page_chunk example_row
               (raw_path (ustr ''r001'') (ustr ''.TXT'') (Some (letters 31)) None None) 1
               (letters 31)]
   \<and> \<not> c_needs_ocr (page_chunk example_row
               (raw_path (ustr ''r001'') (ustr ''.TXT'') (Some (letters 31)) None None) 1
               (letters 31))
   \<and> 30 \<le> length (c_text (page_chunk example_row
               (raw_path (ustr ''r001'') (ustr ''.TXT'') (Some (letters 31)) None None) 1
               (letters 31)))
   \<and> length (clean_text (letters 5)) < 30
   \<and> page_rows example_row
        (raw_path (ustr ''r001'') (ustr ''.TXT'') (Some (letters 31)) None None) 1 [letters 5] []
      = Some []
   \<and> 30 \<le> length (clean_text (letters 31))
   \<and> (\<exists>cs. chunk_text (clean_text (letters 31)) CHUNK_SIZE CHUNK_OVERLAP = Some cs
          \<and> (\<forall>c\<in>set cs. 30 \<le> length c))"
proof -
  let ?f = "raw_path (ustr ''r001'') (ustr ''.TXT'') (Some (letters 31)) None None"
  let ?rows = "[page_chunk example_row ?f 1 (letters 31)]"
  have "load_page_texts ascii_lower ?f = Inr (Some ([letters 31], False))"
    by (simp add: load_page_texts_def extract_txt_def raw_path_def ascii_lower_def ustr_def
        clean_text_letters)
  then have b: "build_chunks_for_doc ascii_lower example_row ?f = Return ?rows"
    by (simp add: build_chunks_for_doc_def page_eval)
  have s: "length (clean_text (letters 5)) < 30" by (simp add: page_eval)
  have l: "30 \<le> length (clean_text (letters 31))"
    by (simp only: clean_text_letters) (simp add: letters_def)
  from build_chunks_min_length[of ascii_lower example_row ?f ?rows "letters 5" 1 "[]" "[]"] b s
  have 1: "\<forall>r\<in>set ?rows. \<not> c_needs_ocr r \<longrightarrow> c_text r \<noteq> [] \<and> 30 \<le> length (c_text r)"
    and 2: "page_rows example_row ?f 1 [letters 5] [] = Some []"
    by simp_all
  from build_chunks_min_length[of ascii_lower example_row ?f ?rows "letters 31" 1 "[]" "[]"] l
  have 3: "\<exists>cs. chunk_text (clean_text (letters 31)) CHUNK_SIZE CHUNK_OVERLAP = Some cs
          \<and> (\<forall>c\<in>set cs. 30 \<le> length c)"
    by blast
  have n: "\<not> c_needs_ocr (page_chunk example_row ?f 1 (letters 31))"
    by (simp add: page_chunk_def)
  have g: "30 \<le> length (c_text (page_chunk example_row ?f 1 (letters 31)))"
    using 1 n by simp
  show ?thesis by (intro conjI b n g s 2 l 3)
qed

text \<open>
  C6, as the code has it. For a PDF whose tier-1 extraction yields fewer than
  \<open>max(1, \<lfloor>0.3 * pages\<rfloor>)\<close> non-empty pages (fewer than \<open>2^50\<close> pages in all) and whose
  fallback extraction yields no segment with more than 30 characters after stripping,
  \<open>build_chunks_for_doc\<close> returns exactly one record, the placeholder with
  \<open>needs_ocr\<close> true, no page and the empty text; no error is raised, and the loop over
  the catalog appends that record and goes on with the next row.
\<close>

theorem ocr_placeholder:
  "lower (suffix path) = ustr ''.pdf''
   \<and> length (extract_pdf_pypdf path) < 2 ^ 50
   \<and> count_non_empty (extract_pdf_pypdf path) < max 1 (3 * length (extract_pdf_pypdf path) div 10)
   \<and> (\<forall>t\<in>set (extract_pdf_pdfminer path). length (strip t) \<le> 30)
   \<longrightarrow> build_chunks_for_doc lower row path
         = Return [\<lparr>c_doc_id = doc_id row, c_title = title row, c_page = None, c_url = url row,
                    c_vigencia = vigencia row, c_text = [], c_source_path = path_str path,
                    c_needs_ocr = True\<rparr>]
       \<and> (resolve lower files row = Some path \<longrightarrow>
            main_loop lower files (row # df) st
              = main_loop lower files df
                  (st\<lparr>all_rows := all_rows st @
                       [\<lparr>c_doc_id = doc_id row, c_title = title row, c_page = None,
                         c_url = url row, c_vigencia = vigencia row, c_text = [],
                         c_source_path = path_str path, c_needs_ocr = True\<rparr>]\<rparr>))"
proof (intro impI)
  assume h: "lower (suffix path) = ustr ''.pdf''
   \<and> length (extract_pdf_pypdf path) < 2 ^ 50
   \<and> count_non_empty (extract_pdf_pypdf path) < max 1 (3 * length (extract_pdf_pypdf path) div 10)
   \<and> (\<forall>t\<in>set (extract_pdf_pdfminer path). length (strip t) \<le> 30)"
  then have t: "int_three_tenths (length (extract_pdf_pypdf path))
                  = 3 * length (extract_pdf_pypdf path) div 10"
    by (intro int_three_tenths_floor) simp
  have "count_non_empty (extract_pdf_pdfminer path) = 0"
    using h by (intro no_usable_count) simp
  then have "extract_pdf_text path = ([], True)"
    using extract_pdf_text_fallback[of path] h unfolding t by simp
  then have b: "build_chunks_for_doc lower row path = Return [placeholder row path]"
    using h by (intro build_chunks_ocr) simp_all
  show "build_chunks_for_doc lower row path
         = Return [\<lparr>c_doc_id = doc_id row, c_title = title row, c_page = None, c_url = url row,
                    c_vigencia = vigencia row, c_text = [], c_source_path = path_str path,
                    c_needs_ocr = True\<rparr>]
       \<and> (resolve lower files row = Some path \<longrightarrow>
            main_loop lower files (row # df) st
              = main_loop lower files df
                  (st\<lparr>all_rows := all_rows st @
                       [\<lparr>c_doc_id = doc_id row, c_title = title row, c_page = None,
                         c_url = url row, c_vigencia = vigencia row, c_text = [],
                         c_source_path = path_str path, c_needs_ocr = True\<rparr>]\<rparr>))"
    using b main_loop_resolved[of lower files row path "[placeholder row path]" df st]
    unfolding placeholder_def by blast
qed

theorem ocr_placeholder_witness:
  "(ascii_lower (suffix (raw_path (ustr ''r001_scan'') (ustr ''.PDF'') None (Some [[], [], [], []]) (Some [])))
      = ustr ''.pdf''
    \<and> length (extract_pdf_pypdf
         (raw_path (ustr ''r001_scan'') (ustr ''.PDF'') None (Some [[], [], [], []]) (Some [])))
        < 2 ^ 50
    \<and> count_non_empty (extract_pdf_pypdf
         (raw_path (ustr ''r001_scan'') (ustr ''.PDF'') None (Some [[], [], [], []]) (Some [])))
        < max 1 (3 * length (extract_pdf_pypdf
         (raw_path (ustr ''r001_scan'') (ustr ''.PDF'') None (Some [[], [], [], []]) (Some [])))
           div 10)
    \<and> extract_pdf_pdfminer
         (raw_path (ustr ''r001_scan'') (ustr ''.PDF'') None (Some [[], [], [], []]) (Some []))
        = [[]]
    \<and> length (strip []) \<le> 30)
   \<and> resolve ascii_lower
        [raw_path (ustr ''r001_scan'') (ustr ''.PDF'') None (Some [[], [], [], []]) (Some [])]
        example_row
      = Some (raw_path (ustr ''r001_scan'') (ustr ''.PDF'') None (Some [[], [], [], []]) (Some []))
   \<and> build_chunks_for_doc ascii_lower example_row
        (raw_path (ustr ''r001_scan'') (ustr ''.PDF'') None (Some [[], [], [], []]) (Some []))
      = Return [placeholder example_row
          (raw_path (ustr ''r001_scan'') (ustr ''.PDF'') None (Some [[], [], [], []]) (Some []))]
   \<and> main_loop ascii_lower
        [raw_path (ustr ''r001_scan'') (ustr ''.PDF'') None (Some [[], [], [], []]) (Some [])]
        [example_row] \<lparr>all_rows = [], missing = []\<rparr>
      = Return \<lparr>all_rows = [placeholder example_row
          (raw_path (ustr ''r001_scan'') (ustr ''.PDF'') None (Some [[], [], [], []]) (Some []))],
          missing = []\<rparr>"
proof -
  let ?g = "raw_path (ustr ''r001_scan'') (ustr ''.PDF'') None (Some [[], [], [], []]) (Some [])"
  have p: "extract_pdf_pypdf ?g = [[], [], [], []]"
    by (simp add: extract_pdf_pypdf_def raw_path_def)
  have m: "extract_pdf_pdfminer ?g = [[]]"
    by (simp add: extract_pdf_pdfminer_def raw_path_def)
  have h1: "ascii_lower (suffix ?g) = ustr ''.pdf''"
    by (simp add: raw_path_def ascii_lower_def ustr_def)
  have h2: "length (extract_pdf_pypdf ?g) < 2 ^ 50" by (simp add: p)
  have h3: "count_non_empty (extract_pdf_pypdf ?g)
              < max 1 (3 * length (extract_pdf_pypdf ?g) div 10)"
    by (simp add: p count_non_empty_def)
  have h4: "\<forall>t\<in>set (extract_pdf_pdfminer ?g). length (strip t) \<le> 30"
    by (simp add: m strip_def)
  have r: "resolve ascii_lower [?g] example_row = Some ?g"
    by (simp add: example_eval resolve_def find_by_doc_id_def)
  note inst = ocr_placeholder[of ascii_lower ?g example_row "[?g]" "[]"
      "\<lparr>all_rows = [], missing = []\<rparr>"]
  from inst h1 h2 h3 h4 have b: "build_chunks_for_doc ascii_lower example_row ?g
      = Return [placeholder example_row ?g]"
    unfolding placeholder_def by blast
  from inst h1 h2 h3 h4 r have "main_loop ascii_lower [?g] [example_row] \<lparr>all_rows = [], missing = []\<rparr>
      = main_loop ascii_lower [?g] []
          (\<lparr>all_rows = [], missing = []\<rparr>\<lparr>all_rows := all_rows \<lparr>all_rows = [], missing = []\<rparr> @
             [placeholder example_row ?g]\<rparr>)"
    unfolding placeholder_def by blast
  then have l: "main_loop ascii_lower [?g] [example_row] \<lparr>all_rows = [], missing = []\<rparr>
      = Return \<lparr>all_rows = [placeholder example_row ?g], missing = []\<rparr>"
    by simp
  have e: "length (strip []) \<le> 30" by (simp add: strip_def)
  show ?thesis by (intro conjI h1 h2 h3 m e r b l)
qed

text \<open>
  The claim C6 as stated fails: with seven pages of which two are non-empty, the count 2
  is below the exact product \<open>0.3 * 7 = 2.1\<close> and the fallback finds no usable text,
  yet tier 1 is accepted and the document gives two ordinary chunk records, not the
  placeholder.
\<close>

theorem ocr_placeholder_counterexample:
  "real (count_non_empty [letters 31, letters 31, [], [], [], [], []])
      < max 1 (0.3 * real (length [letters 31, letters 31, [], [], [], [], []]))
   \<and> extract_pdf_pypdf (raw_path (ustr ''r001'') (ustr ''.pdf'') None
          (Some [letters 31, letters 31, [], [], [], [], []]) (Some []))
       = [letters 31, letters 31, [], [], [], [], []]
   \<and> extract_pdf_pdfminer (raw_path (ustr ''r001'') (ustr ''.pdf'') None
          (Some [letters 31, letters 31, [], [], [], [], []]) (Some [])) = [[]]
   \<and> length (strip []) \<le> 30
   \<and> build_chunks_for_doc ascii_lower example_row
        (raw_path (ustr ''r001'') (ustr ''.pdf'') None
          (Some [letters 31, letters 31, [], [], [], [], []]) (Some []))
      = Return
          [page_chunk example_row (raw_path (ustr ''r001'') (ustr ''.pdf'') None
             (Some [letters 31, letters 31, [], [], [], [], []]) (Some [])) 1 (letters 31),
           page_chunk example_row (raw_path (ustr ''r001'') (ustr ''.pdf'') None
             (Some [letters 31, letters 31, [], [], [], [], []]) (Some [])) 2 (letters 31)]
   \<and> build_chunks_for_doc ascii_lower example_row
        (raw_path (ustr ''r001'') (ustr ''.pdf'') None
          (Some [letters 31, letters 31, [], [], [], [], []]) (Some []))
      \<noteq> Return [placeholder example_row (raw_path (ustr ''r001'') (ustr ''.pdf'') None
             (Some [letters 31, letters 31, [], [], [], [], []]) (Some []))]"
proof -
  let ?ps = "[letters 31, letters 31, [], [], [], [], []]"
  let ?h = "raw_path (ustr ''r001'') (ustr ''.pdf'') None (Some ?ps) (Some [])"
  have c: "count_non_empty ?ps = 2"
    by (simp add: count_non_empty_def strip_letters) (simp add: letters_def strip_def)
  have a: "real (count_non_empty ?ps) < max 1 (0.3 * real (length ?ps))"
    unfolding c by simp
  have p: "extract_pdf_pypdf ?h = ?ps"
    by (simp add: extract_pdf_pypdf_def raw_path_def)
  have m: "extract_pdf_pdfminer ?h = [[]]"
    by (simp add: extract_pdf_pdfminer_def raw_path_def)
  have s: "length (strip []) \<le> 30" by (simp add: strip_def)
  have "length ?ps = 7" by simp
  moreover have "int_three_tenths 7 = 2" using int_three_tenths_floor[of 7] by simp
  ultimately have t: "int_three_tenths (length ?ps) = 2" by (simp only:)
  have e: "extract_pdf_text ?h = (extract_pdf_pypdf ?h, False)"
    by (rule extract_pdf_text_tier1) (simp only: p c t)
  have x: "ascii_lower (suffix ?h) = ustr ''.pdf''"
    by (simp add: raw_path_def ascii_lower_def ustr_def)
  have pr: "page_rows example_row ?h 1 ?ps []
      = Some [page_chunk example_row ?h 1 (letters 31), page_chunk example_row ?h 2 (letters 31)]"
    by (simp add: page_eval)
  have ld: "load_page_texts ascii_lower ?h = Inr (Some (?ps, False))"
    unfolding load_page_texts_def Let_def x e p by simp
  have b: "build_chunks_for_doc ascii_lower example_row ?h
      = Return [page_chunk example_row ?h 1 (letters 31), page_chunk example_row ?h 2 (letters 31)]"
    unfolding build_chunks_for_doc_def ld using pr by simp
  have n: "build_chunks_for_doc ascii_lower example_row ?h \<noteq> Return [placeholder example_row ?h]"
    unfolding b by simp
  show ?thesis using a p m s b n by blast
qed

section \<open>Properties of the ingestion run\<close>

subsection \<open>Substrings, first matches and the title key\<close>

lemma contains_iff: "contains a b \<longleftrightarrow> (\<exists>p s. b = p @ a @ s)"
proof (induction b)
  case Nil
  then show ?case by auto
next
  case (Cons c cs)
  have pre: "take (length a) (c # cs) = a \<longleftrightarrow> (\<exists>s. c # cs = a @ s)"
  proof
    assume "take (length a) (c # cs) = a"
    then have "c # cs = a @ drop (length a) (c # cs)" by (metis append_take_drop_id)
    then show "\<exists>s. c # cs = a @ s" by blast
  next
    assume "\<exists>s. c # cs = a @ s"
    then obtain s where "c # cs = a @ s" by blast
    then show "take (length a) (c # cs) = a" by simp
  qed
  have "(\<exists>p s. c # cs = p @ a @ s) \<longleftrightarrow> (\<exists>s. c # cs = a @ s) \<or> (\<exists>p s. cs = p @ a @ s)"
  proof
    assume "\<exists>p s. c # cs = p @ a @ s"
    then obtain p s where e: "c # cs = p @ a @ s" by blast
    show "(\<exists>s. c # cs = a @ s) \<or> (\<exists>p s. cs = p @ a @ s)"
    proof (cases p)
      case Nil
      then show ?thesis using e by auto
    next
      case (Cons x xs)
      then have "cs = xs @ a @ s" using e by simp
      then show ?thesis by blast
    qed
  next
    assume "(\<exists>s. c # cs = a @ s) \<or> (\<exists>p s. cs = p @ a @ s)"
    then show "\<exists>p s. c # cs = p @ a @ s"
    proof
      assume "\<exists>s. c # cs = a @ s"
      then obtain s where "c # cs = [] @ a @ s" by auto
      then show ?thesis by blast
    next
      assume "\<exists>p s. cs = p @ a @ s"
      then obtain p s where "cs = p @ a @ s" by blast
      then have "c # cs = (c # p) @ a @ s" by simp
      then show ?thesis by blast
    qed
  qed
  then show ?case using Cons pre by simp
qed

lemma find_first:
  "i < length xs \<Longrightarrow> P (xs ! i) \<Longrightarrow> \<forall>j<i. \<not> P (xs ! j) \<Longrightarrow> find P xs = Some (xs ! i)"
  by (auto simp: find_Some_iff)

lemma find_none: "\<forall>x\<in>set xs. \<not> P x \<Longrightarrow> find P xs = None"
  by (simp add: find_None_iff)

lemma resolve_stage1:
  assumes "i < length files"
    and "contains (lower (doc_id row)) (lower (stem (files ! i)))"
    and "\<forall>j<i. \<not> contains (lower (doc_id row)) (lower (stem (files ! j)))"
  shows "resolve lower files row = Some (files ! i)"
proof -
  have "find_by_doc_id lower files (doc_id row) = Some (files ! i)"
    unfolding find_by_doc_id_def using assms by (intro find_first) auto
  then show ?thesis by (simp add: resolve_def)
qed

lemma resolve_stage2:
  assumes "\<forall>f\<in>set files. \<not> contains (lower (doc_id row)) (lower (stem f))"
    and "i < length files" and "title_key lower (title row) \<noteq> []"
    and "contains (title_key lower (title row)) (lower (stem (files ! i)))"
    and "\<forall>j<i. \<not> contains (title_key lower (title row)) (lower (stem (files ! j)))"
  shows "resolve lower files row = Some (files ! i)"
proof -
  have 1: "find_by_doc_id lower files (doc_id row) = None"
    unfolding find_by_doc_id_def using assms(1) by (intro find_none) auto
  have "find_by_title lower files (title row) = Some (files ! i)"
    unfolding find_by_title_def Let_def using assms(2-5) by (intro find_first) auto
  then show ?thesis using 1 by (simp add: resolve_def)
qed

lemma resolve_missing:
  assumes "\<forall>f\<in>set files. \<not> contains (lower (doc_id row)) (lower (stem f))"
    and "title_key lower (title row) = []
         \<or> (\<forall>f\<in>set files. \<not> contains (title_key lower (title row)) (lower (stem f)))"
  shows "resolve lower files row = None"
proof -
  have 1: "find_by_doc_id lower files (doc_id row) = None"
    unfolding find_by_doc_id_def using assms(1) by (intro find_none) auto
  have "find_by_title lower files (title row) = None"
    unfolding find_by_title_def Let_def using assms(2) by (intro find_none) auto
  then show ?thesis using 1 by (simp add: resolve_def)
qed

lemma resolve_in_files: "resolve lower files row = Some f \<Longrightarrow> f \<in> set files"
  by (auto simp: resolve_def find_by_doc_id_def find_by_title_def Let_def find_Some_iff
      split: option.splits)

lemma set_sub_non_alnum: "set (sub_non_alnum s) \<subseteq> {c. lower_alnum c} \<union> {32}"
  by (induction s rule: sub_non_alnum.induct) auto

lemma split_ws_words:
  "set s \<subseteq> {c. lower_alnum c} \<union> {32} \<Longrightarrow>
     \<forall>w\<in>set (split_ws s). w \<noteq> [] \<and> (\<forall>c\<in>set w. lower_alnum c)"
proof (induction s rule: split_ws.induct)
  case (1 s)
  let ?s' = "dropWhile isspace s"
  show ?case
  proof (cases "?s' = []")
    case True
    then show ?thesis by (subst split_ws.simps) (simp add: Let_def)
  next
    case False
    let ?w = "takeWhile (\<lambda>c. \<not> isspace c) ?s'" and ?r = "dropWhile (\<lambda>c. \<not> isspace c) ?s'"
    have sub: "set ?s' \<subseteq> set s" by (meson set_dropWhileD subsetI)
    have "set ?r \<subseteq> set ?s'" by (meson set_dropWhileD subsetI)
    then have "set ?r \<subseteq> {c. lower_alnum c} \<union> {32}" using sub 1(2) by blast
    then have ih: "\<forall>w\<in>set (split_ws ?r). w \<noteq> [] \<and> (\<forall>c\<in>set w. lower_alnum c)"
      using 1(1)[OF refl False] by blast
    have "\<not> isspace (hd ?s')" using False by (rule hd_dropWhile)
    then have ne: "?w \<noteq> []" using False by (cases ?s') auto
    have "\<forall>c\<in>set ?w. lower_alnum c"
    proof
      fix c assume c: "c \<in> set ?w"
      then have "\<not> isspace c" using set_takeWhileD[of c "\<lambda>c. \<not> isspace c" ?s'] by simp
      then have "c \<noteq> 32" by (auto simp: isspace_def)
      moreover have "c \<in> set s" using c sub by (meson set_takeWhileD subsetD)
      ultimately show "lower_alnum c" using 1(2) by auto
    qed
    then have "\<forall>w\<in>set (?w # split_ws ?r). w \<noteq> [] \<and> (\<forall>c\<in>set w. lower_alnum c)"
      using ne ih by simp
    moreover have "split_ws s = ?w # split_ws ?r"
      using False by (subst split_ws.simps) (simp add: Let_def)
    ultimately show ?thesis by simp
  qed
qed

subsection \<open>Claim about the resolver\<close>

text \<open>
  C9, as the code has it. The resolver returns the first file, in listing order, whose
  lower-cased stem contains the lower-cased \<open>doc_id\<close>. Only when no file matches
  does it take the key of the title: the title is lower-cased, every run of characters
  outside \<open>a..z\<close> and \<open>0..9\<close> becomes a space, and the first three words (non-empty,
  of such characters only) are joined by \<open>_\<close>. When that key is not empty it returns the
  first file whose lower-cased stem contains the key. When the key is empty, or no file
  matches it, the document is not resolved: its \<open>doc_id\<close> is appended to \<open>missing\<close> and
  the loop goes on with the next row. \<open>contains\<close> is the substring test.
\<close>

theorem resolver_two_stage:
  "(\<forall>i<length files.
       contains (lower (doc_id row)) (lower (stem (files ! i)))
       \<and> (\<forall>j<i. \<not> contains (lower (doc_id row)) (lower (stem (files ! j))))
       \<longrightarrow> resolve lower files row = Some (files ! i))
   \<and> ((\<forall>f\<in>set files. \<not> contains (lower (doc_id row)) (lower (stem f))) \<longrightarrow>
        (\<forall>i<length files.
           title_key lower (title row) \<noteq> []
           \<and> contains (title_key lower (title row)) (lower (stem (files ! i)))
           \<and> (\<forall>j<i. \<not> contains (title_key lower (title row)) (lower (stem (files ! j))))
           \<longrightarrow> resolve lower files row = Some (files ! i))
        \<and> (title_key lower (title row) = []
             \<or> (\<forall>f\<in>set files. \<not> contains (title_key lower (title row)) (lower (stem f)))
           \<longrightarrow> resolve lower files row = None))
   \<and> title_key lower t = join (ustr ''_'') (take 3 (split_ws (sub_non_alnum (lower t))))
   \<and> (\<forall>w\<in>set (split_ws (sub_non_alnum (lower t))). w \<noteq> [] \<and> (\<forall>c\<in>set w. lower_alnum c))
   \<and> (resolve lower files row = None \<longrightarrow>
         main_loop lower files (row # df) st
           = main_loop lower files df (st\<lparr>missing := missing st @ [doc_id row]\<rparr>))
   \<and> (contains a b \<longleftrightarrow> (\<exists>p s. b = p @ a @ s))"
proof (intro conjI)
  show "\<forall>i<length files.
       contains (lower (doc_id row)) (lower (stem (files ! i)))
       \<and> (\<forall>j<i. \<not> contains (lower (doc_id row)) (lower (stem (files ! j))))
       \<longrightarrow> resolve lower files row = Some (files ! i)"
    using resolve_stage1[of _ files lower row] by blast
  show "(\<forall>f\<in>set files. \<not> contains (lower (doc_id row)) (lower (stem f))) \<longrightarrow>
        (\<forall>i<length files.
           title_key lower (title row) \<noteq> []
           \<and> contains (title_key lower (title row)) (lower (stem (files ! i)))
           \<and> (\<forall>j<i. \<not> contains (title_key lower (title row)) (lower (stem (files ! j))))
           \<longrightarrow> resolve lower files row = Some (files ! i))
        \<and> (title_key lower (title row) = []
             \<or> (\<forall>f\<in>set files. \<not> contains (title_key lower (title row)) (lower (stem f)))
           \<longrightarrow> resolve lower files row = None)"
    using resolve_stage2[of files lower row] resolve_missing[of files lower row] by blast
  show "title_key lower t = join (ustr ''_'') (take 3 (split_ws (sub_non_alnum (lower t))))"
    by (simp add: title_key_def)
  show "\<forall>w\<in>set (split_ws (sub_non_alnum (lower t))). w \<noteq> [] \<and> (\<forall>c\<in>set w. lower_alnum c)"
    using split_ws_words[OF set_sub_non_alnum] .
  show "resolve lower files row = None \<longrightarrow>
         main_loop lower files (row # df) st
           = main_loop lower files df (st\<lparr>missing := missing st @ [doc_id row]\<rparr>)"
    using main_loop_missing[of lower files row df st] by blast
  show "contains a b \<longleftrightarrow> (\<exists>p s. b = p @ a @ s)" by (rule contains_iff)
qed

theorem resolver_two_stage_witness:
  "(1 < length [raw_path (ustr ''otro'') (ustr ''.txt'') None None None,
               raw_path (ustr ''doc_R001_v2'') (ustr ''.pdf'') None None None]
    \<and> contains (ascii_lower (doc_id example_row)) (ascii_lower (ustr ''doc_R001_v2''))
    \<and> \<not> contains (ascii_lower (doc_id example_row)) (ascii_lower (ustr ''otro''))
    \<and> resolve ascii_lower
         [raw_path (ustr ''otro'') (ustr ''.txt'') None None None,
          raw_path (ustr ''doc_R001_v2'') (ustr ''.pdf'') None None None] example_row
        = Some (raw_path (ustr ''doc_R001_v2'') (ustr ''.pdf'') None None None))
   \<and> (title_key ascii_lower (title example_row) = ustr ''reglamento_de_convivencia''
    \<and> \<not> contains (ascii_lower (doc_id example_row)) (ascii_lower (ustr ''Reglamento_de_Convivencia_2023''))
    \<and> contains (title_key ascii_lower (title example_row))
         (ascii_lower (ustr ''Reglamento_de_Convivencia_2023''))
    \<and> \<not> contains (title_key ascii_lower (title example_row)) (ascii_lower (ustr ''otro''))
    \<and> resolve ascii_lower
         [raw_path (ustr ''otro'') (ustr ''.txt'') None None None,
          raw_path (ustr ''Reglamento_de_Convivencia_2023'') (ustr ''.pdf'') None None None]
         example_row
        = Some (raw_path (ustr ''Reglamento_de_Convivencia_2023'') (ustr ''.pdf'') None None None))
   \<and> (resolve ascii_lower [raw_path (ustr ''otro'') (ustr ''.txt'') None None None] example_row
        = None
    \<and> main_loop ascii_lower [raw_path (ustr ''otro'') (ustr ''.txt'') None None None]
         [example_row] \<lparr>all_rows = [], missing = []\<rparr>
        = Return \<lparr>all_rows = [], missing = [ustr ''R001'']\<rparr>)"
proof -
  let ?o = "raw_path (ustr ''otro'') (ustr ''.txt'') None None None"
  let ?d = "raw_path (ustr ''doc_R001_v2'') (ustr ''.pdf'') None None None"
  let ?t = "raw_path (ustr ''Reglamento_de_Convivencia_2023'') (ustr ''.pdf'') None None None"
  have st: "stem ?o = ustr ''otro''" "stem ?d = ustr ''doc_R001_v2''"
      "stem ?t = ustr ''Reglamento_de_Convivencia_2023''"
    by (simp_all add: raw_path_def)
  have c1: "contains (ascii_lower (doc_id example_row)) (ascii_lower (ustr ''doc_R001_v2''))"
    by (simp add: example_eval)
  have c2: "\<not> contains (ascii_lower (doc_id example_row)) (ascii_lower (ustr ''otro''))"
    by (simp add: example_eval)
  have c3: "\<not> contains (ascii_lower (doc_id example_row))
                 (ascii_lower (ustr ''Reglamento_de_Convivencia_2023''))"
    by (simp add: example_eval)
  note k = example_title_key
  have c4: "contains (title_key ascii_lower (title example_row))
              (ascii_lower (ustr ''Reglamento_de_Convivencia_2023''))"
    unfolding k by (simp add: example_eval)
  have c5: "\<not> contains (title_key ascii_lower (title example_row)) (ascii_lower (ustr ''otro''))"
    unfolding k by (simp add: example_eval)
  have kn: "title_key ascii_lower (title example_row) \<noteq> []"
    unfolding k by (simp add: ustr_def)
  have d: "doc_id example_row = ustr ''R001''" by (simp add: example_row_def)
  note s1 = resolver_two_stage[of "[?o, ?d]" ascii_lower example_row "[]" "[]"
      "\<lparr>all_rows = [], missing = []\<rparr>" "[]" "[]", THEN conjunct1, rule_format, of 1]
  have r1: "resolve ascii_lower [?o, ?d] example_row = Some ?d"
  proof -
    have "contains (ascii_lower (doc_id example_row)) (ascii_lower (stem ([?o, ?d] ! 1)))
       \<and> (\<forall>j<1. \<not> contains (ascii_lower (doc_id example_row)) (ascii_lower (stem ([?o, ?d] ! j))))"
      using c1 c2 by (simp add: st)
    moreover have "(1::nat) < length [?o, ?d]" by simp
    ultimately have "resolve ascii_lower [?o, ?d] example_row = Some ([?o, ?d] ! 1)"
      by (rule s1[rotated])
    then show ?thesis by simp
  qed
  note s2 = resolver_two_stage[of "[?o, ?t]" ascii_lower example_row "[]" "[]"
      "\<lparr>all_rows = [], missing = []\<rparr>" "[]" "[]", THEN conjunct2, THEN conjunct1]
  have r2: "resolve ascii_lower [?o, ?t] example_row = Some ?t"
  proof -
    have a: "\<forall>f\<in>set [?o, ?t]. \<not> contains (ascii_lower (doc_id example_row)) (ascii_lower (stem f))"
      using c2 c3 by (simp add: st)
    have b: "title_key ascii_lower (title example_row) \<noteq> []
       \<and> contains (title_key ascii_lower (title example_row)) (ascii_lower (stem ([?o, ?t] ! 1)))
       \<and> (\<forall>j<1. \<not> contains (title_key ascii_lower (title example_row))
                      (ascii_lower (stem ([?o, ?t] ! j))))"
      using kn c4 c5 by (simp add: st)
    have c: "(1::nat) < length [?o, ?t]" by simp
    have "resolve ascii_lower [?o, ?t] example_row = Some ([?o, ?t] ! 1)"
      using c b by (rule s2[THEN mp, OF a, THEN conjunct1, rule_format])
    then show ?thesis by simp
  qed
  note s3 = resolver_two_stage[of "[?o]" ascii_lower example_row "[]" "[]"
      "\<lparr>all_rows = [], missing = []\<rparr>" "[]" "[]", THEN conjunct2, THEN conjunct1]
  note s4 = resolver_two_stage[of "[?o]" ascii_lower example_row "[]" "[]"
      "\<lparr>all_rows = [], missing = []\<rparr>" "[]" "[]", THEN conjunct2, THEN conjunct2,
      THEN conjunct2, THEN conjunct2, THEN conjunct1, rule_format]
  have a3: "\<forall>f\<in>set [?o]. \<not> contains (ascii_lower (doc_id example_row)) (ascii_lower (stem f))"
    using c2 by (simp add: st)
  have b3: "title_key ascii_lower (title example_row) = []
            \<or> (\<forall>f\<in>set [?o]. \<not> contains (title_key ascii_lower (title example_row))
                              (ascii_lower (stem f)))"
    using c5 by (simp add: st)
  have r3: "resolve ascii_lower [?o] example_row = None"
    using b3 by (rule s3[THEN mp, OF a3, THEN conjunct2, THEN mp])
  have "main_loop ascii_lower [?o] [example_row] \<lparr>all_rows = [], missing = []\<rparr>
      = main_loop ascii_lower [?o] []
          (\<lparr>all_rows = [], missing = []\<rparr>
             \<lparr>missing := missing \<lparr>all_rows = [], missing = []\<rparr> @ [doc_id example_row]\<rparr>)"
    using r3 by (rule s4)
  then have m3: "main_loop ascii_lower [?o] [example_row] \<lparr>all_rows = [], missing = []\<rparr>
      = Return \<lparr>all_rows = [], missing = [ustr ''R001'']\<rparr>"
    by (simp add: d)
  have l: "1 < length [?o, ?d]" by simp
  show ?thesis by (intro conjI l c1 c2 r1 k c3 c4 c5 r2 r3 m3)
qed

text \<open>
  The claim C9 as stated fails for a title without any letter or digit: the key is the
  empty string, which every stem contains, yet the resolver returns no file (the code
  tests \<open>title_key and title_key in f.stem.lower()\<close>).
\<close>

theorem resolver_empty_key_counterexample:
  "find_by_doc_id ascii_lower [raw_path (ustr ''a'') (ustr ''.pdf'') None None None]
      (doc_id (example_row\<lparr>doc_id := ustr ''zzz'', title := ustr ''???''\<rparr>)) = None
   \<and> title_key ascii_lower (title (example_row\<lparr>doc_id := ustr ''zzz'', title := ustr ''???''\<rparr>)) = []
   \<and> contains (title_key ascii_lower (title (example_row\<lparr>doc_id := ustr ''zzz'', title := ustr ''???''\<rparr>)))
        (ascii_lower (stem (raw_path (ustr ''a'') (ustr ''.pdf'') None None None)))
   \<and> resolve ascii_lower [raw_path (ustr ''a'') (ustr ''.pdf'') None None None]
        (example_row\<lparr>doc_id := ustr ''zzz'', title := ustr ''???''\<rparr>) = None"
  by (simp add: example_eval resolve_def find_by_doc_id_def find_by_title_def)

subsection \<open>Claim about the empty-run check\<close>

lemma main_loop_all_ocr:
  assumes "\<forall>row\<in>set df. \<forall>f. resolve lower files row = Some f \<longrightarrow>
             lower (suffix f) = ustr ''.pdf'' \<and> snd (extract_pdf_text f)"
  shows "main_loop lower files df st
     = Return (st\<lparr>all_rows := all_rows st
                    @ List.map_filter
                        (\<lambda>row. map_option (placeholder row) (resolve lower files row)) df,
                  missing := missing st
                    @ map doc_id (filter (\<lambda>row. resolve lower files row = None) df)\<rparr>)"
  using assms
proof (induction df arbitrary: st)
  case Nil
  then show ?case by (simp add: map_filter_simps)
next
  case (Cons row df)
  have ih: "main_loop lower files df st'
     = Return (st'\<lparr>all_rows := all_rows st'
                    @ List.map_filter
                        (\<lambda>row. map_option (placeholder row) (resolve lower files row)) df,
                  missing := missing st'
                    @ map doc_id (filter (\<lambda>row. resolve lower files row = None) df)\<rparr>)" for st'
    using Cons.IH[of st'] Cons.prems by simp
  show ?case
  proof (cases "resolve lower files row")
    case None
    show ?thesis
      unfolding main_loop_missing[OF None] ih using None by (simp add: map_filter_simps)
  next
    case (Some f)
    then have "lower (suffix f) = ustr ''.pdf''" "extract_pdf_text f = ([], True)"
      using Cons.prems extract_pdf_text_ocr[of f] by auto
    then have b: "build_chunks_for_doc lower row f = Return [placeholder row f]"
      by (rule build_chunks_ocr)
    show ?thesis
      unfolding main_loop_resolved[OF Some b] ih using Some by (simp add: map_filter_simps)
  qed
qed

lemma read_sources_csv_ok: "read_sources_csv (Some (required, df)) = Inr df"
proof -
  have "find (\<lambda>c. c \<notin> set required) required = None" by (simp add: find_None_iff)
  then show ?thesis by (simp add: read_sources_csv_def)
qed

lemma example_scan_ocr:
  "extract_pdf_text (raw_path st sf rt (Some [[], [], [], []]) (Some [])) = ([], True)"
proof -
  let ?g = "raw_path st sf rt (Some [[], [], [], []]) (Some [])"
  have p: "extract_pdf_pypdf ?g = [[], [], [], []]"
    by (simp add: extract_pdf_pypdf_def raw_path_def)
  have m: "extract_pdf_pdfminer ?g = [[]]"
    by (simp add: extract_pdf_pdfminer_def raw_path_def)
  have c: "count_non_empty [[], [], [], []] = 0" "count_non_empty [[]] = 0"
    by (simp_all add: count_non_empty_def)
  have "count_non_empty (extract_pdf_pypdf ?g)
          < max 1 (int_three_tenths (length (extract_pdf_pypdf ?g)))"
    by (simp only: p c three_tenths_4)
  from extract_pdf_text_fallback[OF this] show ?thesis by (simp add: m c)
qed

text \<open>
  C10. In a run whose catalog loads, where every resolved document is a PDF classified
  \<open>needs_ocr\<close> and at least one document is resolved, \<open>main\<close> returns (it does not exit
  with the zero-chunks failure): the table it writes is not empty and consists of the
  placeholder rows only, one per resolved document in catalog order, each with
  \<open>needs_ocr\<close> true, the empty text and no page.
\<close>

theorem ocr_rows_count:
  "read_sources_csv (sources_csv env) = Inr df
   \<and> (\<exists>row\<in>set df. resolve lower (raw_dir env) row \<noteq> None)
   \<and> (\<forall>row\<in>set df. \<forall>f. resolve lower (raw_dir env) row = Some f \<longrightarrow>
         lower (suffix f) = ustr ''.pdf'' \<and> snd (extract_pdf_text f))
   \<longrightarrow> (\<exists>st. main lower env = Return st \<and> all_rows st \<noteq> []
          \<and> (\<forall>r\<in>set (all_rows st). c_needs_ocr r \<and> c_text r = [] \<and> c_page r = None)
          \<and> all_rows st
              = List.map_filter
                  (\<lambda>row. map_option (placeholder row) (resolve lower (raw_dir env) row)) df)"
proof
  assume h: "read_sources_csv (sources_csv env) = Inr df
   \<and> (\<exists>row\<in>set df. resolve lower (raw_dir env) row \<noteq> None)
   \<and> (\<forall>row\<in>set df. \<forall>f. resolve lower (raw_dir env) row = Some f \<longrightarrow>
         lower (suffix f) = ustr ''.pdf'' \<and> snd (extract_pdf_text f))"
  let ?files = "raw_dir env"
  let ?rows = "List.map_filter (\<lambda>row. map_option (placeholder row) (resolve lower ?files row)) df"
  let ?st = "\<lparr>all_rows = ?rows,
              missing = map doc_id (filter (\<lambda>row. resolve lower ?files row = None) df)\<rparr>"
  from h obtain row f where rf: "row \<in> set df" "resolve lower ?files row = Some f" by auto
  then have "f \<in> set ?files" by (rule_tac resolve_in_files)
  then have ne: "?files \<noteq> []" by auto
  have ml: "main_loop lower ?files df \<lparr>all_rows = [], missing = []\<rparr> = Return ?st"
    using main_loop_all_ocr[of df lower ?files "\<lparr>all_rows = [], missing = []\<rparr>"] h by simp
  have "placeholder row f \<in> set ?rows"
    using rf by (auto simp: map_filter_def intro!: image_eqI[where x = row])
  then have rows_ne: "?rows \<noteq> []" by auto
  have m: "main lower env = Return ?st"
    using h ne ml rows_ne by (simp add: main_def Let_def)
  have "\<forall>r\<in>set ?rows. c_needs_ocr r \<and> c_text r = [] \<and> c_page r = None"
    by (auto simp: map_filter_def placeholder_def)
  then show "\<exists>st. main lower env = Return st \<and> all_rows st \<noteq> []
          \<and> (\<forall>r\<in>set (all_rows st). c_needs_ocr r \<and> c_text r = [] \<and> c_page r = None)
          \<and> all_rows st = ?rows"
    using m rows_ne by simp
qed

theorem ocr_rows_count_witness:
  "(read_sources_csv (sources_csv
       \<lparr>sources_csv = Some (required, [example_row]),
        raw_dir = [raw_path (ustr ''r001_scan'') (ustr ''.PDF'') None (Some [[], [], [], []]) (Some [])]\<rparr>)
      = Inr [example_row]
    \<and> resolve ascii_lower
         [raw_path (ustr ''r001_scan'') (ustr ''.PDF'') None (Some [[], [], [], []]) (Some [])]
         example_row
        = Some (raw_path (ustr ''r001_scan'') (ustr ''.PDF'') None (Some [[], [], [], []]) (Some []))
    \<and> ascii_lower (suffix
         (raw_path (ustr ''r001_scan'') (ustr ''.PDF'') None (Some [[], [], [], []]) (Some [])))
        = ustr ''.pdf''
    \<and> snd (extract_pdf_text
         (raw_path (ustr ''r001_scan'') (ustr ''.PDF'') None (Some [[], [], [], []]) (Some []))))
   \<and> (\<exists>st. main ascii_lower
        \<lparr>sources_csv = Some (required, [example_row]),
         raw_dir = [raw_path (ustr ''r001_scan'') (ustr ''.PDF'') None (Some [[], [], [], []]) (Some [])]\<rparr>
         = Return st
       \<and> all_rows st = [placeholder example_row
             (raw_path (ustr ''r001_scan'') (ustr ''.PDF'') None (Some [[], [], [], []]) (Some []))])
   \<and> main ascii_lower
        \<lparr>sources_csv = Some (required, [example_row]),
         raw_dir = [raw_path (ustr ''r001_scan'') (ustr ''.PDF'') None (Some [[], [], [], []]) (Some [])]\<rparr>
      = Return
          \<lparr>all_rows = [placeholder example_row
             (raw_path (ustr ''r001_scan'') (ustr ''.PDF'') None (Some [[], [], [], []]) (Some []))],
           missing = []\<rparr>"
proof -
  let ?g = "raw_path (ustr ''r001_scan'') (ustr ''.PDF'') None (Some [[], [], [], []]) (Some [])"
  let ?env = "\<lparr>sources_csv = Some (required, [example_row]), raw_dir = [?g]\<rparr>"
  have h1: "read_sources_csv (sources_csv ?env) = Inr [example_row]"
    by (simp add: read_sources_csv_ok)
  have r: "resolve ascii_lower [?g] example_row = Some ?g"
    by (simp add: example_eval resolve_def find_by_doc_id_def)
  have x: "ascii_lower (suffix ?g) = ustr ''.pdf''"
    by (simp add: raw_path_def ascii_lower_def ustr_def)
  have e: "extract_pdf_text ?g = ([], True)" by (rule example_scan_ocr)
  have o: "snd (extract_pdf_text ?g)" by (simp add: e)
  have h2: "\<exists>row\<in>set [example_row]. resolve ascii_lower (raw_dir ?env) row \<noteq> None"
    using r by simp
  have h3: "\<forall>row\<in>set [example_row]. \<forall>f. resolve ascii_lower (raw_dir ?env) row = Some f \<longrightarrow>
         ascii_lower (suffix f) = ustr ''.pdf'' \<and> snd (extract_pdf_text f)"
    using r x o by simp
  from ocr_rows_count[of ?env "[example_row]" ascii_lower, THEN mp, OF conjI[OF h1 conjI[OF h2 h3]]]
  obtain st where st: "main ascii_lower ?env = Return st"
      "all_rows st = List.map_filter
          (\<lambda>row. map_option (placeholder row) (resolve ascii_lower (raw_dir ?env) row)) [example_row]"
    by blast
  have ar: "all_rows st = [placeholder example_row ?g]"
    unfolding st(2) using r by (simp add: map_filter_simps)
  have ex: "\<exists>st. main ascii_lower ?env = Return st \<and> all_rows st = [placeholder example_row ?g]"
    using st(1) ar by blast
  have m: "main ascii_lower ?env = Return \<lparr>all_rows = [placeholder example_row ?g], missing = []\<rparr>"
    using r by (simp add: main_def read_sources_csv_ok Let_def build_chunks_ocr[of ascii_lower ?g example_row, OF x e])
  show ?thesis by (intro conjI h1 r x o ex m)
qed

end
